theory Spec2Isabelle
  imports Main
begin

section \<open>Characters and strings\<close>

text \<open>
  A Python \<open>str\<close> is modelled as a \<open>string\<close>: a list of 8-bit characters, read as the
  code points 0..255. On this range \<open>str.isspace\<close> (which is also what the regular
  expression class \<open>\s\<close>, \<open>str.strip()\<close> and \<open>str.split()\<close> use) holds for the code
  points 9..13, 28..32, 133 and 160, and \<open>str.lower\<close> moves A..Z and the upper-case
  letters 192..222 (without 215) up by 32.
\<close>

definition is_space :: "char \<Rightarrow> bool" where
  "is_space c = (let n = (of_char c :: nat) in
     (9 \<le> n \<and> n \<le> 13) \<or> (28 \<le> n \<and> n \<le> 32) \<or> n = 133 \<or> n = 160)"

definition lower_char :: "char \<Rightarrow> char" where
  "lower_char c = (let n = (of_char c :: nat) in
     if (65 \<le> n \<and> n \<le> 90) \<or> (192 \<le> n \<and> n \<le> 222 \<and> n \<noteq> 215)
     then char_of (n + 32) else c)"

definition lower :: "string \<Rightarrow> string" where
  "lower s = map lower_char s"

definition strip :: "string \<Rightarrow> string" where
  "strip s = rev (dropWhile is_space (rev (dropWhile is_space s)))"

definition is_lower_az :: "char \<Rightarrow> bool" where
  "is_lower_az c = (let n = (of_char c :: nat) in 97 \<le> n \<and> n \<le> 122)"

definition is_upper_AZ :: "char \<Rightarrow> bool" where
  "is_upper_AZ c = (let n = (of_char c :: nat) in 65 \<le> n \<and> n \<le> 90)"

section \<open>Constants\<close>

definition STOP_WORDS :: "string list" where
  "STOP_WORDS = [''and'', ''or'', ''a'', ''the'', ''to'', ''of'', ''for'', ''not'', ''nor'']"

definition MAX_ACRONYM_LENGTH :: nat where
  "MAX_ACRONYM_LENGTH = 10"

text \<open>
  \<open>WORD_SPLIT_PATTERN\<close> is \<open>(\s+|,|;|\.|\(|\)|{|}|:|-)\<close>: a maximal run of white space,
  or one of the ten punctuation characters.
\<close>

definition is_punct :: "char \<Rightarrow> bool" where
  "is_punct c = (c \<in> set '',;.(){}:-'')"

definition is_sep_char :: "char \<Rightarrow> bool" where
  "is_sep_char c = (is_space c \<or> is_punct c)"

section \<open>Acronym-like classifier\<close>

text \<open>
  The pattern of \<open>looks_like_acronym\<close>,
  \<open>^[a-z]?[a-z]?[A-Z][a-zA-Z]*[-/]?[a-zA-Z]*[A-Z][a-z]?s?$\<close>, is a sequence of
  character classes, each taken once, at most once or any number of times.
  \<open>$\<close> matches at the end of the string and before a line feed that ends it.
\<close>

datatype char_class = Lower | Upper | Letter | HyphenSlash | Lit char

datatype quantifier = Once | Optional | Star

fun in_class :: "char_class \<Rightarrow> char \<Rightarrow> bool" where
  "in_class Lower c = is_lower_az c"
| "in_class Upper c = is_upper_AZ c"
| "in_class Letter c = (is_lower_az c \<or> is_upper_AZ c)"
| "in_class HyphenSlash c = (c = CHR ''-'' \<or> c = CHR ''/'')"
| "in_class (Lit d) c = (c = d)"

fun re_match_end :: "(char_class \<times> quantifier) list \<Rightarrow> string \<Rightarrow> bool" where
  "re_match_end [] s = (s = [] \<or> s = [CHR 0x0A])"
| "re_match_end ((cl, Once) # r) s =
     (case s of [] \<Rightarrow> False | c # cs \<Rightarrow> in_class cl c \<and> re_match_end r cs)"
| "re_match_end ((cl, Optional) # r) s =
     ((case s of [] \<Rightarrow> False | c # cs \<Rightarrow> in_class cl c \<and> re_match_end r cs)
      \<or> re_match_end r s)"
| "re_match_end ((cl, Star) # r) s =
     ((case s of [] \<Rightarrow> False | c # cs \<Rightarrow> in_class cl c \<and> re_match_end ((cl, Star) # r) cs)
      \<or> re_match_end r s)"

definition ACRONYM_PATTERN :: "(char_class \<times> quantifier) list" where
  "ACRONYM_PATTERN =
     [(Lower, Optional), (Lower, Optional), (Upper, Once), (Letter, Star),
      (HyphenSlash, Optional), (Letter, Star), (Upper, Once), (Lower, Optional),
      (Lit CHR ''s'', Optional)]"

definition looks_like_acronym :: "string \<Rightarrow> bool" where
  "looks_like_acronym word =
     (if length word > MAX_ACRONYM_LENGTH then False else re_match_end ACRONYM_PATTERN word)"

section \<open>Tokenizer\<close>

record WordMetadata =
  "text" :: string
  acronym_like :: bool
  word_like :: bool
  sentence_number :: nat
  suffix :: bool

text \<open>
  \<open>re.split(WORD_SPLIT_PATTERN, text)\<close>: the pattern has one capturing group, so the
  result alternates the text between two matches and the matched separator, starting and
  ending with a (possibly empty) piece of text. \<open>cur\<close> is the piece read so far.
\<close>

function re_split :: "string \<Rightarrow> string \<Rightarrow> string list" where
  "re_split cur [] = [cur]"
| "re_split cur (c # cs) =
     (if is_space c then cur # (c # takeWhile is_space cs) # re_split [] (dropWhile is_space cs)
      else if is_punct c then cur # [c] # re_split [] cs
      else re_split (cur @ [c]) cs)"
  by pat_completeness auto
termination
  by (relation "measure (\<lambda>(cur, s). length s)")
     (auto simp: length_dropWhile_le less_Suc_eq_le)

text \<open>\<open>re.match(WORD_SPLIT_PATTERN, word)\<close> succeeds when the word starts with a separator.\<close>

definition match_split_pattern :: "string \<Rightarrow> bool" where
  "match_split_pattern word = (case word of [] \<Rightarrow> False | c # _ \<Rightarrow> is_sep_char c)"

definition mk_word :: "string list \<Rightarrow> nat \<Rightarrow> nat \<Rightarrow> string \<Rightarrow> WordMetadata" where
  "mk_word words pos sentence_count word =
     (let word_like = \<not> match_split_pattern word;
          acronym_like =
            (0 < pos \<and> pos + 1 < length words \<and>
             words ! (pos - 1) = ''('' \<and> words ! (pos + 1) = '')'' \<and> looks_like_acronym word);
          is_suffix = (0 < pos \<and> words ! (pos - 1) = ''-'')
      in \<lparr> text = word, acronym_like = acronym_like,
           word_like = (word_like \<and> \<not> is_suffix),
           sentence_number = sentence_count, suffix = is_suffix \<rparr>)"

text \<open>
  The loop of \<open>split_words\<close> over \<open>enumerate(words)\<close>: \<open>rest\<close> is what is left to visit,
  \<open>pos\<close> the position of its head in \<open>words\<close>, \<open>sentence_count\<close> the running counter.
\<close>

fun split_words_loop :: "string list \<Rightarrow> nat \<Rightarrow> nat \<Rightarrow> string list \<Rightarrow> WordMetadata list" where
  "split_words_loop words pos sentence_count [] = []"
| "split_words_loop words pos sentence_count (word # rest) =
     mk_word words pos sentence_count word
       # split_words_loop words (pos + 1)
           (if word = ''.'' then sentence_count + 1 else sentence_count) rest"

definition split_words :: "string \<Rightarrow> WordMetadata list" where
  "split_words txt = (let words = re_split [] txt in split_words_loop words 0 0 words)"

section \<open>Complex-acronym merger\<close>

text \<open>
  The loop of \<open>merge_complex_acronyms\<close> only looks at \<open>words[word_index:]\<close>, which is the
  argument here: with fewer than five tokens left the head is copied; otherwise the window
  of five is merged or its head is copied.
\<close>

fun merge_complex_acronyms :: "WordMetadata list \<Rightarrow> WordMetadata list" where
  "merge_complex_acronyms (open_br # word1 # hyphen # word2 # close_br # rest) =
     (let acronym = text word1 @ text hyphen @ text word2 in
      if text open_br = ''('' \<and> text close_br = '')''
         \<and> (text hyphen = ''-'' \<or> text hyphen = ''/'')
         \<and> looks_like_acronym acronym
      then open_br
             # \<lparr> text = acronym, acronym_like = True, word_like = True,
                 sentence_number = sentence_number word1, suffix = False \<rparr>
             # close_br # merge_complex_acronyms rest
      else open_br # merge_complex_acronyms (word1 # hyphen # word2 # close_br # rest))"
| "merge_complex_acronyms (w # ws) = w # merge_complex_acronyms ws"
| "merge_complex_acronyms [] = []"

section \<open>Bracket validator\<close>

definition bracket_closes :: "char \<Rightarrow> char option" where
  "bracket_closes c =
     (if c = CHR '']'' then Some CHR ''[''
      else if c = CHR ''}'' then Some CHR ''{''
      else if c = CHR '')'' then Some CHR ''(''
      else None)"

text \<open>The stack of \<open>bracket_match\<close> grows at its end, as the Python list does.\<close>

fun bracket_match_loop :: "string \<Rightarrow> string \<Rightarrow> bool" where
  "bracket_match_loop bracket_stack [] = (bracket_stack = [])"
| "bracket_match_loop bracket_stack (c # cs) =
     (if c = CHR ''('' \<or> c = CHR ''['' \<or> c = CHR ''{''
      then bracket_match_loop (bracket_stack @ [c]) cs
      else case bracket_closes c of
        Some opener \<Rightarrow>
          if bracket_stack = [] then False
          else if last bracket_stack \<noteq> opener then False
          else bracket_match_loop (butlast bracket_stack) cs
      | None \<Rightarrow> bracket_match_loop bracket_stack cs)"

definition bracket_match :: "string \<Rightarrow> bool" where
  "bracket_match txt = bracket_match_loop [] txt"

section \<open>Alignment engine\<close>

datatype py_error = IndexError | TypeError | ValueError | ReError

text \<open>
  An alignment path is a list with one entry per letter of the acronym: \<open>Some i\<close> for
  the token index \<open>i\<close>, \<open>None\<close> for a missing letter.
\<close>

type_synonym path = "nat option list"

definition count_nones :: "path \<Rightarrow> nat" where
  "count_nones list_like = length (filter (\<lambda>item. item = None) list_like)"

definition non_none_values :: "path \<Rightarrow> nat list" where
  "non_none_values list_like = [v. Some v \<leftarrow> list_like]"

text \<open>\<open>non_none_apply(list_like, max)\<close> and \<open>non_none_apply(list_like, min)\<close>.\<close>

definition non_none_max :: "path \<Rightarrow> nat option" where
  "non_none_max list_like =
     (case non_none_values list_like of [] \<Rightarrow> None | v # vs \<Rightarrow> Some (fold max vs v))"

definition non_none_min :: "path \<Rightarrow> nat option" where
  "non_none_min list_like =
     (case non_none_values list_like of [] \<Rightarrow> None | v # vs \<Rightarrow> Some (fold min vs v))"

text \<open>The slice \<open>xs[a:b]\<close> for \<open>0 \<le> a\<close> and \<open>0 \<le> b\<close>.\<close>

definition slice :: "'a list \<Rightarrow> nat \<Rightarrow> nat \<Rightarrow> 'a list" where
  "slice xs a b = take (b - a) (drop a xs)"

subsection \<open>Candidate collection\<close>

definition words_covered :: "WordMetadata list \<Rightarrow> nat \<Rightarrow> nat \<Rightarrow> nat" where
  "words_covered words words_pos acronym_pos =
     length (filter (\<lambda>span_pos. word_like (words ! span_pos)
                                \<and> text (words ! span_pos) \<notin> set STOP_WORDS)
               [words_pos..<acronym_pos])"

definition letter_matches :: "WordMetadata \<Rightarrow> char \<Rightarrow> bool" where
  "letter_matches w letter =
     (case text w of [] \<Rightarrow> False | c # _ \<Rightarrow> lower_char c = lower_char letter)"

text \<open>
  A Python set of token indices is modelled as the list of its elements;
  \<open>s.add(x)\<close> is \<open>List.insert x s\<close>. \<open>letter_index_matches\<close> is the list of these
  sets, one per letter.
\<close>

definition add_matches :: "WordMetadata list \<Rightarrow> string \<Rightarrow> nat \<Rightarrow> nat list list \<Rightarrow> nat list list" where
  "add_matches words letters words_pos letter_index_matches =
     map (\<lambda>(letter, s). if letter_matches (words ! words_pos) letter
                         then List.insert words_pos s else s)
         (zip letters letter_index_matches)"

text \<open>
  The backward walk \<open>for words_pos in range(acronym_pos - 2, -1, -1)\<close>: the fourth
  argument is \<open>words_pos + 1\<close>, and the walk starts at \<open>acronym_pos - 1\<close>
  (nothing is visited when \<open>acronym_pos < 2\<close>). Both \<open>break\<close>s return the
  sets collected so far.
\<close>

fun collect_matches ::
  "WordMetadata list \<Rightarrow> nat \<Rightarrow> int \<Rightarrow> nat \<Rightarrow> nat list list \<Rightarrow> nat list list" where
  "collect_matches words acronym_pos max_intra_word_letters 0 letter_index_matches =
     letter_index_matches"
| "collect_matches words acronym_pos max_intra_word_letters (Suc words_pos) letter_index_matches =
     (if sentence_number (words ! words_pos) \<noteq> sentence_number (words ! acronym_pos)
      then letter_index_matches
      else if int (words_covered words words_pos acronym_pos)
                > int (length (text (words ! acronym_pos))) + max_intra_word_letters
      then letter_index_matches
      else collect_matches words acronym_pos max_intra_word_letters words_pos
             (add_matches words (text (words ! acronym_pos)) words_pos letter_index_matches))"

subsection \<open>Path enumeration\<close>

text \<open>
  Python does not fix the order in which a set is iterated. The engine therefore takes
  the order as a parameter \<open>ord\<close>, applied to the list of the set's elements wherever
  the source iterates over a set.
\<close>

definition iteration_order :: "(nat option list \<Rightarrow> nat option list) \<Rightarrow> bool" where
  "iteration_order ord = (\<forall>xs. set (ord xs) = set xs)"

text \<open>One such order is the order of the lists that stand for the sets.\<close>

definition list_order :: "nat option list \<Rightarrow> nat option list" where
  "list_order xs = xs"

definition first_paths ::
  "(nat option list \<Rightarrow> nat option list) \<Rightarrow> WordMetadata list \<Rightarrow> nat list \<Rightarrow> path list" where
  "first_paths ord words first_matches =
     [[Some c]. Some c \<leftarrow> ord (map Some first_matches), word_like (words ! c)]"

definition keep_choice :: "nat option \<Rightarrow> nat option \<Rightarrow> bool" where
  "keep_choice curr_max choice =
     (case curr_max of None \<Rightarrow> True
      | Some mx \<Rightarrow> (case choice of None \<Rightarrow> True | Some c \<Rightarrow> c > mx))"

definition extend_paths ::
  "(nat option list \<Rightarrow> nat option list) \<Rightarrow> path list \<Rightarrow> nat list \<Rightarrow> path list" where
  "extend_paths ord paths choices =
     concat (map (\<lambda>path.
        let curr_max = non_none_max path in
        [path @ [choice]. choice \<leftarrow> ord (None # map Some choices),
                          keep_choice curr_max choice]) paths)"

definition all_paths ::
  "(nat option list \<Rightarrow> nat option list) \<Rightarrow> WordMetadata list \<Rightarrow> nat list \<Rightarrow> nat list list
     \<Rightarrow> path list" where
  "all_paths ord words first_matches other_matches =
     foldl (extend_paths ord) (first_paths ord words first_matches) other_matches"

subsection \<open>Filtering\<close>

text \<open>\<open>sum(m.word_like for m in span)\<close>: a sum of Booleans.\<close>

definition total_words :: "WordMetadata list \<Rightarrow> nat" where
  "total_words span = sum_list (map (\<lambda>m. if word_like m then 1 else 0) span)"

text \<open>
  One round of the loop that fills \<open>filtered_paths\<close>: \<open>Inr True\<close> when the path is
  appended, \<open>Inr False\<close> when it is dropped. A path with no matched letter at all that is
  within the missing-letter budget makes \<open>path_end + 1\<close> fail with a \<open>TypeError\<close>.
\<close>

definition path_kept :: "WordMetadata list \<Rightarrow> int \<Rightarrow> path \<Rightarrow> py_error + bool" where
  "path_kept words max_intra_word_letters path =
     (let missed_letters = count_nones path in
      if int missed_letters > max_intra_word_letters then Inr False
      else case (non_none_min path, non_none_max path) of
        (Some path_start, Some path_end) \<Rightarrow>
          (let span = slice words path_start (path_end + 1) in
           if \<not> bracket_match (concat (map text span)) then Inr False
           else Inr (int (total_words span)
                       \<le> int (length path) - int missed_letters + max_intra_word_letters))
      | _ \<Rightarrow> Inl TypeError)"

fun filter_paths :: "WordMetadata list \<Rightarrow> int \<Rightarrow> path list \<Rightarrow> py_error + path list" where
  "filter_paths words max_intra_word_letters [] = Inr []"
| "filter_paths words max_intra_word_letters (path # paths) =
     (case path_kept words max_intra_word_letters path of
        Inl e \<Rightarrow> Inl e
      | Inr keep \<Rightarrow>
          (case filter_paths words max_intra_word_letters paths of
             Inl e \<Rightarrow> Inl e
           | Inr filtered \<Rightarrow> Inr (if keep then path # filtered else filtered)))"

subsection \<open>Scoring\<close>

type_synonym path_key = "int \<times> int \<times> int"

definition path_key :: "path \<Rightarrow> py_error + path_key" where
  "path_key p =
     (case (non_none_min p, non_none_max p) of
        (Some lo, Some hi) \<Rightarrow> Inr (int (count_nones p), 1 - int hi, int hi - int lo)
      | _ \<Rightarrow> Inl TypeError)"

text \<open>Python compares tuples lexicographically.\<close>

fun key_less :: "path_key \<Rightarrow> path_key \<Rightarrow> bool" where
  "key_less (a1, b1, c1) (a2, b2, c2) =
     (a1 < a2 \<or> (a1 = a2 \<and> (b1 < b2 \<or> (b1 = b2 \<and> c1 < c2))))"

text \<open>
  \<open>min(filtered_paths, key=...)\<close> keeps the first path whose key is smallest:
  a later path replaces the best one only when its key is strictly smaller.
\<close>

fun min_path_loop :: "path \<Rightarrow> path_key \<Rightarrow> path list \<Rightarrow> py_error + path" where
  "min_path_loop best best_key [] = Inr best"
| "min_path_loop best best_key (p # ps) =
     (case path_key p of
        Inl e \<Rightarrow> Inl e
      | Inr k \<Rightarrow> if key_less k best_key then min_path_loop p k ps
                 else min_path_loop best best_key ps)"

definition min_path :: "path list \<Rightarrow> py_error + path" where
  "min_path filtered_paths =
     (case filtered_paths of
        [] \<Rightarrow> Inl ValueError
      | p # ps \<Rightarrow> (case path_key p of Inl e \<Rightarrow> Inl e | Inr k \<Rightarrow> min_path_loop p k ps))"

subsection \<open>Missing-letter interpolation\<close>

text \<open>
  The loop runs over a copy of \<open>enumerate(zip(best_path, acronym.text))\<close> made before
  the first round, without its first element; \<open>best_path\<close> itself is updated in place,
  and \<open>best_path[i - 1]\<close> reads the updated list.
\<close>

fun interpolate ::
  "WordMetadata list \<Rightarrow> (nat option \<times> char) list \<Rightarrow> nat \<Rightarrow> path \<Rightarrow> path" where
  "interpolate words [] i best_path = best_path"
| "interpolate words ((match, letter) # rest) i best_path =
     (case match of
        Some _ \<Rightarrow> interpolate words rest (i + 1) best_path
      | None \<Rightarrow>
          (case best_path ! (i - 1) of
             None \<Rightarrow> best_path
           | Some prev_choice \<Rightarrow>
               if lower (text (words ! prev_choice)) \<in> set STOP_WORDS
               then interpolate words rest (i + 1) best_path
               else if length (text (words ! prev_choice)) > 1
                       \<and> lower_char letter \<in> set (drop 1 (text (words ! prev_choice)))
               then interpolate words rest (i + 1) (best_path[i := Some prev_choice])
               else interpolate words rest (i + 1) best_path))"

subsection \<open>Emission\<close>

text \<open>
  The body of the loop of \<open>mark_acronyms\<close> for one acronym-like token: the bounds
  \<open>(min(best_path), acronym_pos - 1)\<close> of the slice of tokens that is joined into the
  definition, or \<open>None\<close> when nothing is recorded for this token.
\<close>

definition definition_span ::
  "(nat option list \<Rightarrow> nat option list) \<Rightarrow> WordMetadata list \<Rightarrow> int \<Rightarrow> nat
     \<Rightarrow> py_error + (nat \<times> nat) option" where
  "definition_span ord words max_intra_word_letters acronym_pos =
     (let letters = text (words ! acronym_pos);
          letter_index_matches =
            collect_matches words acronym_pos max_intra_word_letters (acronym_pos - 1)
              (map (\<lambda>_. []) letters)
      in case letter_index_matches of
        [] \<Rightarrow> Inl IndexError
      | first_matches # other_matches \<Rightarrow>
          if first_matches = [] then Inr None
          else
            (case filter_paths words max_intra_word_letters
                    (all_paths ord words first_matches other_matches) of
               Inl e \<Rightarrow> Inl e
             | Inr [] \<Rightarrow> Inr None
             | Inr filtered_paths \<Rightarrow>
                 (case min_path filtered_paths of
                    Inl e \<Rightarrow> Inl e
                  | Inr best \<Rightarrow>
                      (let best_path = interpolate words (drop 1 (zip best letters)) 1 best in
                       if count_nones best_path = 0
                       then (case non_none_min best_path of
                               None \<Rightarrow> Inl ValueError
                             | Some lo \<Rightarrow> Inr (Some (lo, acronym_pos - 1)))
                       else Inr None))))"

definition definition_text :: "WordMetadata list \<Rightarrow> nat \<times> nat \<Rightarrow> string" where
  "definition_text words span =
     strip (concat (map text (slice words (fst span) (snd span))))"

text \<open>\<open>acronyms.setdefault(key, set()).add(defn)\<close>\<close>

definition add_definition ::
  "(string \<rightharpoonup> string set) \<Rightarrow> string \<Rightarrow> string \<Rightarrow> (string \<rightharpoonup> string set)" where
  "add_definition acronyms key defn =
     acronyms(key \<mapsto> insert defn (case acronyms key of None \<Rightarrow> {} | Some defns \<Rightarrow> defns))"

fun mark_acronyms_loop ::
  "(nat option list \<Rightarrow> nat option list) \<Rightarrow> WordMetadata list \<Rightarrow> int \<Rightarrow> nat list
     \<Rightarrow> (string \<rightharpoonup> string set) \<Rightarrow> py_error + (string \<rightharpoonup> string set)" where
  "mark_acronyms_loop ord words max_intra_word_letters [] acronyms = Inr acronyms"
| "mark_acronyms_loop ord words max_intra_word_letters (acronym_pos # rest) acronyms =
     (if \<not> acronym_like (words ! acronym_pos)
      then mark_acronyms_loop ord words max_intra_word_letters rest acronyms
      else case definition_span ord words max_intra_word_letters acronym_pos of
        Inl e \<Rightarrow> Inl e
      | Inr None \<Rightarrow> mark_acronyms_loop ord words max_intra_word_letters rest acronyms
      | Inr (Some span) \<Rightarrow>
          mark_acronyms_loop ord words max_intra_word_letters rest
            (add_definition acronyms (text (words ! acronym_pos)) (definition_text words span)))"

definition mark_acronyms ::
  "(nat option list \<Rightarrow> nat option list) \<Rightarrow> string \<Rightarrow> int
     \<Rightarrow> py_error + (string \<rightharpoonup> string set)" where
  "mark_acronyms ord txt max_intra_word_letters =
     (let words = merge_complex_acronyms (split_words txt)
      in mark_acronyms_loop ord words max_intra_word_letters [0..<length words] Map.empty)"

section \<open>Definition normalizer\<close>

definition SUBS :: "(string \<times> string) list" where
  "SUBS =
     [(''carcinoma'', ''cancer''),
      (''carcinomas'', ''cancer''),
      (''florescence'', ''fluorescent''),
      (''florescence'', ''fluorescent''),
      (''florescent'', ''fluorescent''),
      (''stranded'', ''strand''),
      (''indices'', ''index''),
      (''polimerase'', ''polymerase''),
      (''remission'', ''response''),
      (''microarray'', ''micro array''),
      (''gammapathies'', ''gammopathies''),
      (''gammopaties'', ''gammopathies''),
      (''gammapathy'', ''gammopathy''),
      (''progress'', ''progression''),
      (''linda'', ''lindau'')]"

definition ends_with :: "string \<Rightarrow> string \<Rightarrow> bool" where
  "ends_with word patt =
     (length patt \<le> length word \<and> drop (length word - length patt) word = patt)"

text \<open>
  \<open>re.sub(patt + '$', rep, word)\<close> for a pattern \<open>patt\<close> of literal characters:
  \<open>$\<close> matches at the end of the word and before a line feed that ends it.
\<close>

definition sub_at_end :: "string \<Rightarrow> string \<Rightarrow> string \<Rightarrow> string" where
  "sub_at_end patt rep word =
     (if ends_with word (patt @ [CHR 0x0A])
      then take (length word - length patt - 1) word @ rep @ [CHR 0x0A]
      else if ends_with word patt
      then take (length word - length patt) word @ rep
      else word)"

text \<open>\<open>re.sub(r'([^ios])s$', r'\1', word)\<close>\<close>

definition sub_plural_s :: "string \<Rightarrow> string" where
  "sub_plural_s word =
     (let n = length word in
      if 3 \<le> n \<and> word ! (n - 1) = CHR 0x0A \<and> word ! (n - 2) = CHR ''s''
         \<and> word ! (n - 3) \<notin> set ''ios''
      then take (n - 2) word @ [CHR 0x0A]
      else if 2 \<le> n \<and> word ! (n - 1) = CHR ''s'' \<and> word ! (n - 2) \<notin> set ''ios''
      then take (n - 1) word
      else word)"

definition convert_to_singular :: "string \<Rightarrow> string" where
  "convert_to_singular word =
     (let word = sub_at_end [CHR 0x27, CHR ''s''] [] word;
          word = sub_at_end ''exes'' ''ex'' word;
          word = sub_at_end ''ses'' ''s'' word;
          word = sub_at_end ''ies'' ''y'' word;
          word = sub_plural_s word;
          word = sub_at_end ''ated'' ''ating'' word;
          word = sub_at_end ''iency'' ''ient'' word;
          word = sub_at_end ''ced'' ''cing'' word;
          word = sub_at_end ''ally'' ''al'' word;
          word = sub_at_end ''tation'' ''tating'' word;
          word = sub_at_end ''ence'' ''ent'' word;
          word = sub_at_end ''ios'' ''io'' word
      in word)"

text \<open>\<open>str.split()\<close>: the maximal runs of characters that are not white space.\<close>

fun py_split :: "string \<Rightarrow> string \<Rightarrow> string list" where
  "py_split cur [] = (if cur = [] then [] else [cur])"
| "py_split cur (c # cs) =
     (if is_space c then (if cur = [] then py_split [] cs else cur # py_split [] cs)
      else py_split (cur @ [c]) cs)"

definition normalize_defn :: "string \<Rightarrow> string" where
  "normalize_defn defn =
     (let defn = strip (lower defn);
          defn = map (\<lambda>c. if c = CHR ''-'' \<or> c = CHR ''='' \<or> c = CHR ''/'' then CHR '' '' else c) defn;
          defn = map (\<lambda>c. if c = CHR '','' then CHR '' '' else c) defn;
          words = py_split [] defn;
          words = map (\<lambda>w. case map_of SUBS w of Some v \<Rightarrow> v | None \<Rightarrow> w) words;
          words = map convert_to_singular words;
          words = filter (\<lambda>w. w \<notin> set STOP_WORDS) words
      in concat words)"

section \<open>Inline substitution\<close>

text \<open>\<open>defn in text\<close>: \<open>defn\<close> occurs in \<open>text\<close> as a contiguous substring.\<close>

fun is_substring :: "string \<Rightarrow> string \<Rightarrow> bool" where
  "is_substring sub [] = (sub = [])"
| "is_substring sub (c # cs) = (take (length sub) (c # cs) = sub \<or> is_substring sub cs)"

text \<open>
  \<open>sub_acronym\<close> builds a regular expression from the acronym it is given and hands it
  to \<open>re.sub\<close> of the Python library, which is a parameter here:
  \<open>re_sub pattern repl string count\<close> returns the new string, or the error raised for a
  pattern or a replacement that does not compile.
\<close>

definition sub_acronym ::
  "(string \<Rightarrow> string \<Rightarrow> string \<Rightarrow> nat \<Rightarrow> py_error + string)
     \<Rightarrow> string \<Rightarrow> string \<Rightarrow> string \<Rightarrow> py_error + string" where
  "sub_acronym re_sub txt acronym defn =
     (if is_substring defn txt then Inr txt
      else re_sub ([CHR ''('', CHR 0x5C, CHR ''b''] @ acronym @ [CHR ''s'', CHR ''?'', CHR 0x5C, CHR ''b'', CHR '')''])
                  ([CHR 0x5C, CHR ''1'', CHR '' '', CHR ''(''] @ defn @ [CHR '')''])
                  txt 1)"

section \<open>Auxiliary notions for the properties\<close>

text \<open>
  The shape of the result of \<open>re.split\<close>: pieces free of separator characters
  alternate with separators, and the list starts and ends with a piece.
\<close>

definition separator_free :: "string \<Rightarrow> bool" where
  "separator_free s = (\<forall>c \<in> set s. \<not> is_sep_char c)"

definition separator_match :: "string \<Rightarrow> bool" where
  "separator_match s = (case s of [] \<Rightarrow> False | c # _ \<Rightarrow> is_sep_char c)"

fun pieces_and_separators :: "string list \<Rightarrow> bool" where
  "pieces_and_separators [] = False"
| "pieces_and_separators [p] = separator_free p"
| "pieces_and_separators (p # s # rest) =
     (separator_free p \<and> separator_match s \<and> pieces_and_separators rest)"

text \<open>
  \<open>merge_complex_acronyms\<close> with the \<open>'/'\<close> alternative of its window test taken
  out; it is not in the source, and only serves to state that this alternative is dead
  on the output of the tokenizer.
\<close>

fun merge_hyphen_only :: "WordMetadata list \<Rightarrow> WordMetadata list" where
  "merge_hyphen_only (open_br # word1 # hyphen # word2 # close_br # rest) =
     (let acronym = text word1 @ text hyphen @ text word2 in
      if text open_br = ''('' \<and> text close_br = '')''
         \<and> text hyphen = ''-''
         \<and> looks_like_acronym acronym
      then open_br
             # \<lparr> text = acronym, acronym_like = True, word_like = True,
                 sentence_number = sentence_number word1, suffix = False \<rparr>
             # close_br # merge_hyphen_only rest
      else open_br # merge_hyphen_only (word1 # hyphen # word2 # close_br # rest))"
| "merge_hyphen_only (w # ws) = w # merge_hyphen_only ws"
| "merge_hyphen_only [] = []"

text \<open>
  The best path of the acronym-like token at \<open>acronym_pos\<close> is unique: computed
  with the sets iterated in the order of their lists, the key of the chosen path is
  strictly smaller than the key of every other path that passes the filter.
  Then the order of iteration cannot change the choice made by \<open>min\<close>.
\<close>

definition unique_best :: "WordMetadata list \<Rightarrow> int \<Rightarrow> nat \<Rightarrow> bool" where
  "unique_best words max_intra_word_letters acronym_pos =
     (case collect_matches words acronym_pos max_intra_word_letters (acronym_pos - 1)
             (map (\<lambda>_. []) (text (words ! acronym_pos))) of
        [] \<Rightarrow> True
      | first_matches # other_matches \<Rightarrow>
          (case filter_paths words max_intra_word_letters
                  (all_paths list_order words first_matches other_matches) of
             Inl e \<Rightarrow> False
           | Inr filtered_paths \<Rightarrow>
               (case min_path filtered_paths of
                  Inl e \<Rightarrow> filtered_paths = []
                | Inr best \<Rightarrow>
                    (\<forall>q \<in> set filtered_paths. q \<noteq> best \<longrightarrow>
                       (case (path_key best, path_key q) of
                          (Inr kb, Inr kq) \<Rightarrow> key_less kb kq
                        | _ \<Rightarrow> False)))))"

definition order_independent :: "string \<Rightarrow> int \<Rightarrow> bool" where
  "order_independent txt max_intra_word_letters =
     (let words = merge_complex_acronyms (split_words txt)
      in \<forall>acronym_pos \<in> set [0..<length words].
           acronym_like (words ! acronym_pos)
             \<longrightarrow> unique_best words max_intra_word_letters acronym_pos)"

text \<open>
  What the filter of the alignment engine tests, in the words of its description: the
  missing letters are within the budget, the span from the first to the last matched
  token is bracket-balanced, and the number of word-like tokens in that span (stop words
  and empty tokens included) is at most the number of matched letters plus the budget.
\<close>

definition passes_filter :: "WordMetadata list \<Rightarrow> int \<Rightarrow> path \<Rightarrow> bool" where
  "passes_filter words max_intra_word_letters path =
     (let path_start = Min (set (non_none_values path));
          path_end = Max (set (non_none_values path))
      in int (count_nones path) \<le> max_intra_word_letters
         \<and> bracket_match (concat (map text (slice words path_start (path_end + 1))))
         \<and> int (card {i. path_start \<le> i \<and> i \<le> path_end \<and> i < length words
                          \<and> word_like (words ! i)})
             \<le> int (length (non_none_values path)) + max_intra_word_letters)"

text \<open>
  The words of a definition as \<open>normalize_defn\<close> sees them after its first four steps
  (lower case, strip, separators replaced by blanks, split at white space).
\<close>

definition definition_words :: "string \<Rightarrow> string list" where
  "definition_words defn =
     py_split []
       (map (\<lambda>c. if c = CHR '','' then CHR '' '' else c)
          (map (\<lambda>c. if c = CHR ''-'' \<or> c = CHR ''='' \<or> c = CHR ''/'' then CHR '' '' else c)
             (strip (lower defn))))"

section \<open>Properties of the tokenizer\<close>

lemma concat_re_split: "concat (re_split cur s) = cur @ s"
  by (induction cur s rule: re_split.induct) simp_all

lemma map_text_split_words_loop:
  "map text (split_words_loop words pos sentence_count rest) = rest"
  by (induction rest arbitrary: pos sentence_count) (simp_all add: mk_word_def Let_def)

text \<open>
  C8: tokenization is reversible. For every input text, the texts of the tokens that
  \<open>split_words\<close> returns, concatenated in order, are the input text.
\<close>

theorem split_words_reversible: "concat (map text (split_words txt)) = txt"
  by (simp add: split_words_def Let_def map_text_split_words_loop concat_re_split)

lemma is_sep_char_paren [simp]: "is_sep_char CHR ''(''" "\<not> is_sep_char CHR ''/''"
  by (simp_all add: is_sep_char_def is_punct_def is_space_def)

lemma pieces_re_split:
  "separator_free cur \<Longrightarrow> pieces_and_separators (re_split cur s)"
proof (induction cur s rule: re_split.induct)
  case (1 cur)
  then show ?case by simp
next
  case (2 cur c cs)
  then show ?case
    by (auto simp: separator_free_def separator_match_def is_sep_char_def)
qed

lemma pieces_nth:
  "pieces_and_separators L \<Longrightarrow> i < length L \<Longrightarrow>
     (even i \<longrightarrow> separator_free (L ! i)) \<and> (odd i \<longrightarrow> separator_match (L ! i))"
proof (induction L arbitrary: i rule: pieces_and_separators.induct)
  case 1
  then show ?case by simp
next
  case (2 p)
  then show ?case by simp
next
  case (3 p s rest)
  show ?case
  proof (cases i)
    case 0
    with 3 show ?thesis by simp
  next
    case (Suc j)
    show ?thesis
    proof (cases j)
      case 0
      with Suc 3 show ?thesis by simp
    next
      case (Suc k)
      with \<open>i = Suc j\<close> 3 show ?thesis by simp
    qed
  qed
qed

lemma length_split_words_loop [simp]:
  "length (split_words_loop words pos sc rest) = length rest"
  by (induction rest arbitrary: pos sc) simp_all

lemma text_split_words_nth:
  "i < length (split_words txt) \<Longrightarrow> text (split_words txt ! i) = re_split [] txt ! i"
proof -
  assume "i < length (split_words txt)"
  then have "map text (split_words txt) ! i = text (split_words txt ! i)" by simp
  then show ?thesis by (simp add: split_words_def Let_def map_text_split_words_loop)
qed

lemma length_split_words: "length (split_words txt) = length (re_split [] txt)"
  by (simp add: split_words_def Let_def)

lemma paren_is_separator_token:
  assumes "i < length (split_words txt)" "text (split_words txt ! i) = ''(''"
  shows "odd i"
proof (rule ccontr)
  assume "\<not> odd i"
  moreover have "pieces_and_separators (re_split [] txt)"
    by (rule pieces_re_split) (simp add: separator_free_def)
  ultimately have "separator_free (re_split [] txt ! i)"
    using assms pieces_nth length_split_words by auto
  then show False using assms text_split_words_nth by (simp add: separator_free_def)
qed

lemma separator_token_not_slash:
  assumes "i < length (split_words txt)" "odd i"
  shows "text (split_words txt ! i) \<noteq> ''/''"
proof -
  have "pieces_and_separators (re_split [] txt)"
    by (rule pieces_re_split) (simp add: separator_free_def)
  then have "separator_match (re_split [] txt ! i)"
    using assms pieces_nth length_split_words by auto
  then show ?thesis using assms text_split_words_nth by (auto simp: separator_match_def)
qed

lemma window_no_slash:
  assumes "i + 2 < length (split_words txt)" "text (split_words txt ! i) = ''(''"
  shows "text (split_words txt ! (i + 2)) \<noteq> ''/''"
proof -
  have "i < length (split_words txt)" using assms by simp
  then have "odd i" using assms paren_is_separator_token by blast
  then have "odd (i + 2)" by simp
  then show ?thesis using assms separator_token_not_slash by blast
qed

lemma merge_slash_dead:
  "(\<forall>i. i + 2 < length ws \<and> text (ws ! i) = ''('' \<longrightarrow> text (ws ! (i + 2)) \<noteq> ''/'')
   \<Longrightarrow> merge_complex_acronyms ws = merge_hyphen_only ws"
proof (induction ws rule: merge_complex_acronyms.induct)
  case (1 open_br word1 hyphen word2 close_br rest)
  let ?ws = "open_br # word1 # hyphen # word2 # close_br # rest"
  have h0: "text open_br = ''('' \<longrightarrow> text hyphen \<noteq> ''/''"
    using "1.prems" [rule_format, of 0] by simp
  have tl: "\<forall>i. i + 2 < length (word1 # hyphen # word2 # close_br # rest)
               \<and> text ((word1 # hyphen # word2 # close_br # rest) ! i) = ''(''
             \<longrightarrow> text ((word1 # hyphen # word2 # close_br # rest) ! (i + 2)) \<noteq> ''/''"
  proof (intro allI impI)
    fix i assume "i + 2 < length (word1 # hyphen # word2 # close_br # rest)
               \<and> text ((word1 # hyphen # word2 # close_br # rest) ! i) = ''(''"
    then show "text ((word1 # hyphen # word2 # close_br # rest) ! (i + 2)) \<noteq> ''/''"
      using "1.prems" [rule_format, of "Suc i"] by simp
  qed
  have rest: "\<forall>i. i + 2 < length rest \<and> text (rest ! i) = ''(''
             \<longrightarrow> text (rest ! (i + 2)) \<noteq> ''/''"
  proof (intro allI impI)
    fix i assume "i + 2 < length rest \<and> text (rest ! i) = ''(''"
    then show "text (rest ! (i + 2)) \<noteq> ''/''"
      using "1.prems" [rule_format, of "i + 5"] by (simp add: numeral_eq_Suc)
  qed
  show ?case using h0 "1.IH" tl rest by (auto simp: Let_def)
qed simp_all


text \<open>
  C10, as amended: \<open>split_words\<close> never emits \<open>'/'\<close> as a separator token (the
  tokens at odd positions); a token \<open>'/'\<close> can only be a piece of text between two
  separators. Hence no window of five tokens that starts with \<open>'('\<close> has \<open>'/'\<close> as
  its third token, and on the output of the tokenizer \<open>merge_complex_acronyms\<close>
  computes what it would compute without its \<open>'/'\<close> alternative. A slash-joined form
  such as \<open>AP/BP\<close> in parentheses is one acronym-like token.
\<close>

theorem slash_only_inside_word_tokens:
  "(\<forall>i < length (split_words txt). odd i \<longrightarrow> text (split_words txt ! i) \<noteq> ''/'')
   \<and> (\<forall>i. i + 2 < length (split_words txt) \<and> text (split_words txt ! i) = ''(''
          \<longrightarrow> text (split_words txt ! (i + 2)) \<noteq> ''/'')
   \<and> merge_complex_acronyms (split_words txt) = merge_hyphen_only (split_words txt)
   \<and> map (\<lambda>w. (text w, acronym_like w)) (split_words ''(AP/BP)'')
       = [([], False), (''('', False), (''AP/BP'', True), ('')'', False), ([], False)]"
proof -
  have a: "\<forall>i < length (split_words txt). odd i \<longrightarrow> text (split_words txt ! i) \<noteq> ''/''"
    using separator_token_not_slash by blast
  have b: "\<forall>i. i + 2 < length (split_words txt) \<and> text (split_words txt ! i) = ''(''
          \<longrightarrow> text (split_words txt ! (i + 2)) \<noteq> ''/''"
    using window_no_slash by blast
  have c: "merge_complex_acronyms (split_words txt) = merge_hyphen_only (split_words txt)"
    using b by (rule merge_slash_dead)
  have d: "map (\<lambda>w. (text w, acronym_like w)) (split_words ''(AP/BP)'')
       = [([], False), (''('', False), (''AP/BP'', True), ('')'', False), ([], False)]"
    by code_simp
  show ?thesis using a b c d by blast
qed

theorem slash_only_inside_word_tokens_witness:
  "(1::nat) < length (split_words ''(AP / BP)'') \<and> odd (1::nat)
   \<and> (1::nat) + 2 < length (split_words ''(AP / BP)'')
   \<and> text (split_words ''(AP / BP)'' ! 1) = ''(''
   \<and> text (split_words ''(AP / BP)'' ! 1) \<noteq> ''/''
   \<and> text (split_words ''(AP / BP)'' ! (1 + 2)) \<noteq> ''/''"
proof -
  have ev: "(1::nat) < length (split_words ''(AP / BP)'') \<and> odd (1::nat)
   \<and> (1::nat) + 2 < length (split_words ''(AP / BP)'')
   \<and> text (split_words ''(AP / BP)'' ! 1) = ''(''"
    by code_simp
  show ?thesis
    using ev slash_only_inside_word_tokens [of "''(AP / BP)''"] by blast
qed

text \<open>
  C10 as stated fails: a slash between two separators is a token of its own.
\<close>

theorem split_words_emits_slash_token:
  "map text (split_words ''AP / BP'') = [''AP'', '' '', ''/'', '' '', ''BP'']"
  by code_simp

section \<open>Properties of inline substitution and normalization\<close>

lemma is_substring_iff: "is_substring sub s \<longleftrightarrow> (\<exists>pre post. s = pre @ sub @ post)"
proof (induction s)
  case Nil
  then show ?case by simp
next
  case (Cons c cs)
  have take_iff: "take (length sub) (c # cs) = sub \<longleftrightarrow> (\<exists>post. c # cs = sub @ post)"
    by (metis append_eq_conv_conj)
  show ?case
  proof
    assume "is_substring sub (c # cs)"
    then consider "take (length sub) (c # cs) = sub" | "is_substring sub cs" by auto
    then show "\<exists>pre post. c # cs = pre @ sub @ post"
    proof cases
      case 1
      then obtain post where "c # cs = sub @ post" using take_iff by blast
      then have "c # cs = [] @ sub @ post" by simp
      then show ?thesis by blast
    next
      case 2
      then obtain pre post where "cs = pre @ sub @ post" using Cons.IH by blast
      then have "c # cs = (c # pre) @ sub @ post" by simp
      then show ?thesis by blast
    qed
  next
    assume "\<exists>pre post. c # cs = pre @ sub @ post"
    then obtain pre post where eq: "c # cs = pre @ sub @ post" by blast
    show "is_substring sub (c # cs)"
    proof (cases pre)
      case Nil
      with eq have "c # cs = sub @ post" by simp
      then have "take (length sub) (c # cs) = sub" using take_iff by blast
      then show ?thesis by simp
    next
      case (Cons a pre')
      with eq have "cs = pre' @ sub @ post" by simp
      with Cons.IH show ?thesis by auto
    qed
  qed
qed

text \<open>
  C7: when the definition already occurs verbatim in the text, \<open>sub_acronym\<close> returns
  the text unchanged, whatever the acronym and whatever \<open>re.sub\<close> does; applying it
  again to its result gives the same result.
\<close>

theorem sub_acronym_idempotent:
  assumes "txt = pre @ defn @ post"
  shows "sub_acronym re_sub txt acronym defn = Inr txt
       \<and> (\<exists>t'. sub_acronym re_sub txt acronym defn = Inr t'
               \<and> sub_acronym re_sub t' acronym defn = sub_acronym re_sub txt acronym defn)"
proof -
  have "is_substring defn txt" using assms is_substring_iff by blast
  then show ?thesis by (simp add: sub_acronym_def)
qed

theorem sub_acronym_idempotent_witness:
  "''we found IMAs (invasive mucinous adenocarcinoma) here''
      = ''we found IMAs ('' @ ''invasive mucinous adenocarcinoma'' @ '') here''
   \<and> sub_acronym (\<lambda>pattern repl s n. Inl ReError)
        ''we found IMAs (invasive mucinous adenocarcinoma) here'' ''IMA''
        ''invasive mucinous adenocarcinoma''
      = Inr ''we found IMAs (invasive mucinous adenocarcinoma) here''"
  using sub_acronym_idempotent [of "''we found IMAs (invasive mucinous adenocarcinoma) here''"
      "''we found IMAs (''" "''invasive mucinous adenocarcinoma''" "'') here''"
      "\<lambda>pattern repl s n. Inl ReError" "''IMA''"]
  by simp

text \<open>
  C6 at the input \<open>microarray\<close>: the synonym table replaces the word, after the
  split into words, by \<open>micro array\<close>, and the blank stays in the key; the key of
  \<open>micro array\<close> is the one without the blank.
\<close>

theorem normalize_defn_microarray:
  "normalize_defn ''microarray'' = ''micro array''
   \<and> normalize_defn ''micro array'' = ''microarray''
   \<and> CHR '' '' \<in> set (normalize_defn ''microarray'') \<and> is_space CHR '' ''"
  by code_simp

lemma py_split_chars:
  assumes "w \<in> set (py_split cur s)" "\<forall>c \<in> set cur. \<not> is_space c"
  shows "set w \<subseteq> set cur \<union> set s \<and> (\<forall>c \<in> set w. \<not> is_space c)"
  using assms
proof (induction s arbitrary: cur)
  case Nil
  then have "w = cur" by (simp split: if_splits)
  then show ?case using Nil.prems(2) by simp
next
  case (Cons c cs)
  show ?case
  proof (cases "is_space c")
    case True
    then have "w = cur \<or> w \<in> set (py_split [] cs)"
      using Cons.prems(1) by (simp split: if_splits)
    then show ?thesis
    proof
      assume "w = cur"
      then show ?thesis using Cons.prems(2) by auto
    next
      assume "w \<in> set (py_split [] cs)"
      then have "set w \<subseteq> set [] \<union> set cs \<and> (\<forall>c \<in> set w. \<not> is_space c)"
        by (rule Cons.IH) simp
      then show ?thesis by auto
    qed
  next
    case False
    then have "w \<in> set (py_split (cur @ [c]) cs)" using Cons.prems(1) by simp
    moreover have "\<forall>d \<in> set (cur @ [c]). \<not> is_space d" using False Cons.prems(2) by simp
    ultimately have "set w \<subseteq> set (cur @ [c]) \<union> set cs \<and> (\<forall>c \<in> set w. \<not> is_space c)"
      by (rule Cons.IH)
    then show ?thesis by auto
  qed
qed

lemma SUBS_chars:
  "\<forall>(w, v) \<in> set SUBS. \<forall>c \<in> set v. is_lower_az c \<or> (c = CHR '' '' \<and> w = ''microarray'')"
  by code_simp

lemma SUBS_values:
  assumes "map_of SUBS w = Some v" "c \<in> set v"
  shows "is_lower_az c \<or> (c = CHR '' '' \<and> w = ''microarray'')"
proof -
  have "(w, v) \<in> set SUBS" using assms(1) by (rule map_of_SomeD)
  then show ?thesis using assms(2) SUBS_chars by blast
qed

lemma sub_at_end_pres:
  assumes "\<forall>c \<in> set word. P c" "\<forall>c \<in> set rep. P c"
  shows "\<forall>c \<in> set (sub_at_end patt rep word). P c"
proof -
  have lf: "ends_with word (patt @ [CHR 0x0A]) \<Longrightarrow> CHR 0x0A \<in> set word"
  proof -
    assume "ends_with word (patt @ [CHR 0x0A])"
    then have "drop (length word - length (patt @ [CHR 0x0A])) word = patt @ [CHR 0x0A]"
      by (simp add: ends_with_def)
    then have "CHR 0x0A \<in> set (drop (length word - length (patt @ [CHR 0x0A])) word)"
      by simp
    then show ?thesis by (rule in_set_dropD)
  qed
  show ?thesis
    using assms lf unfolding sub_at_end_def
    by (auto split: if_splits dest: in_set_takeD)
qed

lemma sub_plural_s_pres:
  assumes "\<forall>c \<in> set word. P c"
  shows "\<forall>c \<in> set (sub_plural_s word). P c"
proof -
  have lf: "3 \<le> length word \<Longrightarrow> word ! (length word - 1) = CHR 0x0A \<Longrightarrow> P (CHR 0x0A)"
  proof -
    assume a: "3 \<le> length word" and b: "word ! (length word - 1) = CHR 0x0A"
    from a have "length word - 1 < length word" by simp
    then have "word ! (length word - 1) \<in> set word" by (rule nth_mem)
    then have "P (word ! (length word - 1))" using assms by blast
    then show "P (CHR 0x0A)" unfolding b .
  qed
  show ?thesis
    using assms lf unfolding sub_plural_s_def Let_def
    by (auto split: if_splits dest: in_set_takeD)
qed

lemma convert_to_singular_pres:
  assumes "\<forall>c \<in> set word. P c" "\<And>c. is_lower_az c \<Longrightarrow> P c"
  shows "\<forall>c \<in> set (convert_to_singular word). P c"
proof -
  have low: "\<forall>d \<in> set []. P d" "\<forall>d \<in> set ''ex''. P d"
    "\<forall>d \<in> set ''s''. P d" "\<forall>d \<in> set ''y''. P d"
    "\<forall>d \<in> set ''ating''. P d" "\<forall>d \<in> set ''ient''. P d"
    "\<forall>d \<in> set ''cing''. P d" "\<forall>d \<in> set ''al''. P d"
    "\<forall>d \<in> set ''tating''. P d" "\<forall>d \<in> set ''ent''. P d"
    "\<forall>d \<in> set ''io''. P d"
    by (simp_all add: assms(2) is_lower_az_def)
  show ?thesis
    unfolding convert_to_singular_def Let_def
    by (intro sub_at_end_pres sub_plural_s_pres assms(1) low)
qed

lemma lower_az_not_separator:
  "is_lower_az c \<Longrightarrow> \<not> is_space c \<and> c \<noteq> CHR ''-'' \<and> c \<noteq> CHR ''='' \<and> c \<noteq> CHR ''/''
                       \<and> c \<noteq> CHR '',''"
  by (auto simp: is_lower_az_def is_space_def Let_def)

lemma normalize_defn_words:
  "normalize_defn defn
     = concat (filter (\<lambda>w. w \<notin> set STOP_WORDS)
         (map convert_to_singular
            (map (\<lambda>w. case map_of SUBS w of Some v \<Rightarrow> v | None \<Rightarrow> w)
               (definition_words defn))))"
  by (simp add: normalize_defn_def definition_words_def Let_def)

lemma map_replace_elem:
  assumes "c \<in> set (map (\<lambda>c. if P c then b else c) s)"
  shows "c = b \<or> (c \<in> set s \<and> \<not> P c)"
proof -
  from assms have "c \<in> (\<lambda>c. if P c then b else c) ` set s" by (simp only: set_map)
  then obtain x where x: "x \<in> set s" "c = (if P x then b else x)" by (rule imageE)
  show ?thesis
  proof (cases "P x")
    case True
    then show ?thesis using x by simp
  next
    case False
    then show ?thesis using x by simp
  qed
qed

lemma replaced_chars:
  assumes "c \<in> set (map (\<lambda>c. if c = CHR '','' then CHR '' '' else c)
          (map (\<lambda>c. if c = CHR ''-'' \<or> c = CHR ''='' \<or> c = CHR ''/'' then CHR '' '' else c) s))"
  shows "c \<noteq> CHR ''-'' \<and> c \<noteq> CHR ''='' \<and> c \<noteq> CHR ''/'' \<and> c \<noteq> CHR '',''"
proof -
  let ?t = "map (\<lambda>c. if c = CHR ''-'' \<or> c = CHR ''='' \<or> c = CHR ''/'' then CHR '' '' else c) s"
  have "c = CHR '' '' \<or> (c \<in> set ?t \<and> c \<noteq> CHR '','')"
    using assms by (rule map_replace_elem)
  moreover have "c \<in> set ?t \<Longrightarrow>
      c = CHR '' '' \<or> (c \<in> set s \<and> \<not> (c = CHR ''-'' \<or> c = CHR ''='' \<or> c = CHR ''/''))"
    by (rule map_replace_elem)
  ultimately have "c = CHR '' '' \<or> (c \<noteq> CHR '','' \<and> c \<noteq> CHR ''-'' \<and> c \<noteq> CHR ''='' \<and> c \<noteq> CHR ''/'')"
    by blast
  moreover have "CHR '' '' \<noteq> CHR ''-''" "CHR '' '' \<noteq> CHR ''=''" "CHR '' '' \<noteq> CHR ''/''"
    "CHR '' '' \<noteq> CHR '',''" by simp_all
  ultimately show ?thesis by metis
qed

lemma definition_words_chars:
  assumes "w \<in> set (definition_words defn)" "c \<in> set w"
  shows "\<not> is_space c \<and> c \<noteq> CHR ''-'' \<and> c \<noteq> CHR ''='' \<and> c \<noteq> CHR ''/'' \<and> c \<noteq> CHR '',''"
proof -
  let ?s = "map (\<lambda>c. if c = CHR '','' then CHR '' '' else c)
          (map (\<lambda>c. if c = CHR ''-'' \<or> c = CHR ''='' \<or> c = CHR ''/'' then CHR '' '' else c)
             (strip (lower defn)))"
  have "w \<in> set (py_split [] ?s)" using assms(1) unfolding definition_words_def .
  then have "set w \<subseteq> set [] \<union> set ?s \<and> (\<forall>c \<in> set w. \<not> is_space c)"
    by (rule py_split_chars) simp
  then have "c \<in> set [] \<union> set ?s" and sp: "\<not> is_space c" using assms(2) by blast+
  then have "c \<in> set ?s" by (simp only: list.set(1) Un_empty_left)
  then have "c \<noteq> CHR ''-'' \<and> c \<noteq> CHR ''='' \<and> c \<noteq> CHR ''/'' \<and> c \<noteq> CHR '',''"
    by (rule replaced_chars)
  then show ?thesis using sp by blast
qed

lemma concat_filter_map_elem:
  "c \<in> set (concat (filter P (map h ws))) \<Longrightarrow> \<exists>w \<in> set ws. c \<in> set (h w)"
  by (induction ws) (auto split: if_splits)

text \<open>
  Apart from that entry of the synonym table the key is free of separators: it never
  contains \<open>-\<close>, \<open>=\<close>, \<open>/\<close> or a comma, and white space in it can only be the
  blank brought in for the word \<open>microarray\<close>.
\<close>

lemma normalize_defn_separators:
  assumes "c \<in> set (normalize_defn defn)"
  shows "c \<noteq> CHR ''-'' \<and> c \<noteq> CHR ''='' \<and> c \<noteq> CHR ''/'' \<and> c \<noteq> CHR '',''
         \<and> (is_space c \<longrightarrow> c = CHR '' '' \<and> ''microarray'' \<in> set (definition_words defn))"
proof -
  let ?h = "\<lambda>w. convert_to_singular (case map_of SUBS w of Some v \<Rightarrow> v | None \<Rightarrow> w)"
  have "normalize_defn defn
          = concat (filter (\<lambda>w. w \<notin> set STOP_WORDS) (map ?h (definition_words defn)))"
    by (simp only: normalize_defn_words map_map comp_def)
  then have "c \<in> set (concat (filter (\<lambda>w. w \<notin> set STOP_WORDS)
                            (map ?h (definition_words defn))))"
    using assms by (simp only:)
  then obtain w where w: "w \<in> set (definition_words defn)" and c: "c \<in> set (?h w)"
    using concat_filter_map_elem by fast
  let ?v = "case map_of SUBS w of Some v \<Rightarrow> v | None \<Rightarrow> w"
  have "\<forall>c \<in> set (convert_to_singular ?v). c \<in> set ?v \<or> is_lower_az c"
    by (rule convert_to_singular_pres) blast+
  then have "c \<in> set ?v \<or> is_lower_az c" using c by blast
  then show ?thesis
  proof
    assume "is_lower_az c"
    then show ?thesis using lower_az_not_separator by blast
  next
    assume cv: "c \<in> set ?v"
    show ?thesis
    proof (cases "map_of SUBS w")
      case None
      then have "c \<in> set w" using cv by simp
      then show ?thesis using definition_words_chars [OF w] by blast
    next
      case (Some v)
      then have "c \<in> set v" using cv by simp
      then have "is_lower_az c \<or> (c = CHR '' '' \<and> w = ''microarray'')"
        using SUBS_values [OF Some] by blast
      then show ?thesis
      proof
        assume "is_lower_az c"
        then show ?thesis using lower_az_not_separator by blast
      next
        assume a: "c = CHR '' '' \<and> w = ''microarray''"
        have "CHR '' '' \<noteq> CHR ''-''" "CHR '' '' \<noteq> CHR ''=''" "CHR '' '' \<noteq> CHR ''/''"
          "CHR '' '' \<noteq> CHR '',''" by simp_all
        then show ?thesis using a w by blast
      qed
    qed
  qed
qed

section \<open>Empty tokens\<close>

lemma re_split_head_sep: "is_sep_char c \<Longrightarrow> re_split [] (c # s) = [] # tl (re_split [] (c # s))"
  by (auto simp: is_sep_char_def)

lemma re_split_adjacent_start:
  assumes "is_sep_char c1" "is_sep_char c2" "\<not> (is_space c1 \<and> is_space c2)"
  shows "[] \<in> set (re_split cur (c1 # c2 # post))"
proof (cases "is_space c1")
  case True
  then have "\<not> is_space c2" "is_punct c2" using assms by (auto simp: is_sep_char_def)
  then show ?thesis using True by simp
next
  case False
  then have p1: "is_punct c1" using assms by (auto simp: is_sep_char_def)
  have "[] \<in> set (re_split [] (c2 # post))"
    using re_split_head_sep [OF assms(2), of post] by (metis list.set_intros(1))
  then show ?thesis using False p1 by simp
qed

lemma re_split_adjacent:
  assumes "is_sep_char c1" "is_sep_char c2" "\<not> (is_space c1 \<and> is_space c2)"
  shows "[] \<in> set (re_split cur (pre @ c1 # c2 # post))"
proof (induction pre arbitrary: cur rule: length_induct)
  case (1 pre)
  show ?case
  proof (cases pre)
    case Nil
    then show ?thesis using re_split_adjacent_start [OF assms] by simp
  next
    case (Cons c pre')
    show ?thesis
    proof (cases "is_space c")
      case True
      have "[] \<in> set (re_split [] (dropWhile is_space (pre' @ c1 # c2 # post)))"
      proof (cases "\<forall>x \<in> set pre'. is_space x")
        case all: True
        then have dw: "dropWhile is_space (pre' @ c1 # c2 # post) = dropWhile is_space (c1 # c2 # post)"
          by (rule_tac dropWhile_append2) blast
        show ?thesis
        proof (cases "is_space c1")
          case True
          then have "\<not> is_space c2" using assms by blast
          then have "dropWhile is_space (c1 # c2 # post) = c2 # post" using True by simp
          then show ?thesis using dw re_split_head_sep [OF assms(2), of post]
            by (metis list.set_intros(1))
        next
          case False
          then show ?thesis using dw re_split_adjacent_start [OF assms] by simp
        qed
      next
        case False
        then obtain x where "x \<in> set pre'" "\<not> is_space x" by blast
        then have dw: "dropWhile is_space (pre' @ c1 # c2 # post)
                         = dropWhile is_space pre' @ c1 # c2 # post"
          by (rule dropWhile_append1)
        have "length (dropWhile is_space pre') < length pre"
          using Cons length_dropWhile_le [of is_space pre'] by simp
        then show ?thesis using 1 dw by simp
      qed
      then show ?thesis using Cons True by simp
    next
      case False
      have "length pre' < length pre" using Cons by simp
      then have "\<And>cur'. [] \<in> set (re_split cur' (pre' @ c1 # c2 # post))" using 1 by blast
      then show ?thesis using Cons False by simp
    qed
  qed
qed

lemma split_words_loop_empty_word_like:
  "tok \<in> set (split_words_loop words pos sc rest) \<Longrightarrow> text tok = [] \<Longrightarrow> \<not> suffix tok
     \<Longrightarrow> word_like tok"
  by (induction rest arbitrary: pos sc)
     (auto simp: mk_word_def Let_def match_split_pattern_def)

lemma nth_split_words_loop:
  "i < length rest \<Longrightarrow>
     \<exists>sc'. split_words_loop words pos sc rest ! i = mk_word words (pos + i) sc' (rest ! i)"
proof (induction rest arbitrary: pos sc i)
  case Nil
  then show ?case by simp
next
  case (Cons word rest)
  show ?case
  proof (cases i)
    case 0
    then show ?thesis by auto
  next
    case (Suc j)
    then have "j < length rest" using Cons.prems by simp
    from Cons.IH [OF this, of "pos + 1" "if word = ''.'' then sc + 1 else sc"]
    show ?thesis using Suc by simp
  qed
qed

lemma merge_tokens:
  "tok \<in> set (merge_complex_acronyms ws) \<Longrightarrow> tok \<in> set ws \<or> (word_like tok \<and> text tok \<noteq> [])"
  by (induction ws rule: merge_complex_acronyms.induct)
     (auto simp: Let_def split: if_splits)

lemma words_covered_split:
  assumes "lo \<le> p" "p < hi"
  shows "words_covered ws lo hi
          = words_covered ws lo p
            + (if word_like (ws ! p) \<and> text (ws ! p) \<notin> set STOP_WORDS then 1 else 0)
            + words_covered ws (Suc p) hi"
proof -
  have "[lo..<hi] = [lo..<p] @ [p] @ [Suc p..<hi]"
    using assms by (metis append_Cons append_Nil less_imp_le_nat upt_add_eq_append
         le_add_diff_inverse upt_conv_Cons)
  then show ?thesis by (simp add: words_covered_def)
qed

lemma slice_split:
  assumes "lo \<le> p" "p < hi" "hi \<le> length ws"
  shows "slice ws lo hi = slice ws lo p @ [ws ! p] @ slice ws (Suc p) hi"
proof -
  have "hi - lo = (p - lo) + (hi - p)" using assms by simp
  then have "take (hi - lo) (drop lo ws)
               = take (p - lo) (drop lo ws) @ take (hi - p) (drop (p - lo) (drop lo ws))"
    by (simp add: take_add)
  moreover have "drop (p - lo) (drop lo ws) = drop p ws" using assms by simp
  moreover have "drop p ws = ws ! p # drop (Suc p) ws"
    using assms by (simp add: Cons_nth_drop_Suc)
  moreover have "take (hi - p) (ws ! p # drop (Suc p) ws)
                   = ws ! p # take (hi - Suc p) (drop (Suc p) ws)"
  proof -
    have "hi - p = Suc (hi - Suc p)" using assms by simp
    then show ?thesis by (metis take_Suc_Cons)
  qed
  ultimately show ?thesis by (simp add: slice_def)
qed

lemma total_words_split:
  assumes "lo \<le> p" "p < hi" "hi \<le> length ws"
  shows "total_words (slice ws lo hi)
           = total_words (slice ws lo p) + (if word_like (ws ! p) then 1 else 0)
             + total_words (slice ws (Suc p) hi)"
  by (simp add: slice_split [OF assms] total_words_def)


lemma split_words_suffix_flag:
  assumes "p < length (split_words txt)"
  shows "suffix (split_words txt ! p) = (0 < p \<and> text (split_words txt ! (p - 1)) = ''-'')"
proof -
  let ?words = "re_split [] txt"
  have p: "p < length ?words" using assms by (simp add: split_words_def Let_def)
  obtain sc where "split_words txt ! p = mk_word ?words p sc (?words ! p)"
    using nth_split_words_loop [OF p, of ?words 0 0] by (auto simp: split_words_def Let_def)
  then have "suffix (split_words txt ! p) = (0 < p \<and> ?words ! (p - 1) = ''-'')"
    by (simp add: mk_word_def Let_def)
  moreover have "0 < p \<Longrightarrow> text (split_words txt ! (p - 1)) = ?words ! (p - 1)"
    using assms by (intro text_split_words_nth) simp
  ultimately show ?thesis by auto
qed

text \<open>
  C9: where two separator matches are adjacent (two separator characters that are not
  both white space), \<open>split_words\<close> emits a token with the empty text. A token with
  the empty text that does not follow a \<open>'-'\<close> token (its \<open>suffix\<close> flag is off)
  is \<open>word_like\<close>, also after \<open>merge_complex_acronyms\<close>; and in any token list each
  such token adds one to the word budget of the backward walk (\<open>words_covered\<close>) and to
  the count of the span-density filter (\<open>total_words\<close>).
\<close>

theorem empty_tokens_count_as_words:
  "(is_sep_char c \<and> is_sep_char d \<and> \<not> (is_space c \<and> is_space d)
      \<longrightarrow> [] \<in> set (map text (split_words (pre @ c # d # post))))
   \<and> (\<forall>p < length (split_words input).
         suffix (split_words input ! p)
           = (0 < p \<and> text (split_words input ! (p - 1)) = ''-'')
         \<and> (text (split_words input ! p) = [] \<and> \<not> suffix (split_words input ! p)
              \<longrightarrow> word_like (split_words input ! p)))
   \<and> (\<forall>tok \<in> set (merge_complex_acronyms (split_words input)).
         text tok = [] \<and> \<not> suffix tok \<longrightarrow> word_like tok)
   \<and> (\<forall>p. lo \<le> p \<and> p < hi \<and> hi \<le> length ws \<and> text (ws ! p) = [] \<and> word_like (ws ! p)
         \<longrightarrow> words_covered ws lo hi
               = words_covered ws lo p + 1 + words_covered ws (Suc p) hi
           \<and> total_words (slice ws lo hi)
               = total_words (slice ws lo p) + 1 + total_words (slice ws (Suc p) hi))"
proof (intro conjI allI ballI impI)
  assume "is_sep_char c \<and> is_sep_char d \<and> \<not> (is_space c \<and> is_space d)"
  then have "[] \<in> set (re_split [] (pre @ c # d # post))"
    using re_split_adjacent by blast
  then show "[] \<in> set (map text (split_words (pre @ c # d # post)))"
    by (simp add: split_words_def Let_def map_text_split_words_loop)
next
  fix p assume "p < length (split_words input)"
  then show "suffix (split_words input ! p)
           = (0 < p \<and> text (split_words input ! (p - 1)) = ''-'')"
    by (rule split_words_suffix_flag)
next
  fix p assume p: "p < length (split_words input)"
    and e: "text (split_words input ! p) = [] \<and> \<not> suffix (split_words input ! p)"
  have "split_words input ! p \<in> set (split_words_loop (re_split [] input) 0 0 (re_split [] input))"
    using p by (simp add: split_words_def Let_def)
  then show "word_like (split_words input ! p)"
    using e split_words_loop_empty_word_like by blast
next
  fix tok assume m: "tok \<in> set (merge_complex_acronyms (split_words input))"
    and e: "text tok = [] \<and> \<not> suffix tok"
  then have "tok \<in> set (split_words input) \<or> word_like tok" using merge_tokens by blast
  then show "word_like tok"
    using e split_words_loop_empty_word_like by (auto simp: split_words_def Let_def)
next
  fix p
  assume h: "lo \<le> p \<and> p < hi \<and> hi \<le> length ws \<and> text (ws ! p) = [] \<and> word_like (ws ! p)"
  have "[] \<notin> set STOP_WORDS" by (simp add: STOP_WORDS_def)
  then show "words_covered ws lo hi = words_covered ws lo p + 1 + words_covered ws (Suc p) hi"
    using h words_covered_split [of lo p hi ws] by simp
next
  fix p
  assume h: "lo \<le> p \<and> p < hi \<and> hi \<le> length ws \<and> text (ws ! p) = [] \<and> word_like (ws ! p)"
  then show "total_words (slice ws lo hi)
               = total_words (slice ws lo p) + 1 + total_words (slice ws (Suc p) hi)"
    using total_words_split [of lo p hi ws] by simp
qed

theorem empty_tokens_count_as_words_witness:
  "is_sep_char CHR '' '' \<and> is_sep_char CHR ''('' \<and> \<not> (is_space CHR '' '' \<and> is_space CHR ''('')
   \<and> [] \<in> set (map text (split_words (''a'' @ CHR '' '' # CHR ''('' # ''b)'')))
   \<and> (2::nat) < length (split_words ''a (b)'')
   \<and> text (split_words ''a (b)'' ! 2) = [] \<and> \<not> suffix (split_words ''a (b)'' ! 2)
   \<and> word_like (split_words ''a (b)'' ! 2)
   \<and> merge_complex_acronyms (split_words ''a (b)'') ! 2
        \<in> set (merge_complex_acronyms (split_words ''a (b)''))
   \<and> text (merge_complex_acronyms (split_words ''a (b)'') ! 2) = []
   \<and> word_like (merge_complex_acronyms (split_words ''a (b)'') ! 2)
   \<and> words_covered (split_words ''a (b)'') 0 4
       = words_covered (split_words ''a (b)'') 0 2 + 1 + words_covered (split_words ''a (b)'') 3 4
   \<and> total_words (slice (split_words ''a (b)'') 0 4)
       = total_words (slice (split_words ''a (b)'') 0 2) + 1
         + total_words (slice (split_words ''a (b)'') 3 4)"
proof -
  note t = empty_tokens_count_as_words
     [where c = "CHR '' ''" and d = "CHR ''(''" and pre = "''a''" and post = "''b)''"
        and input = "''a (b)''" and ws = "split_words ''a (b)''" and lo = 0 and hi = 4]
  have ev: "is_sep_char CHR '' '' \<and> is_sep_char CHR ''(''
       \<and> \<not> (is_space CHR '' '' \<and> is_space CHR ''('')
       \<and> (2::nat) < length (split_words ''a (b)'')
       \<and> text (split_words ''a (b)'' ! 2) = [] \<and> \<not> suffix (split_words ''a (b)'' ! 2)
       \<and> merge_complex_acronyms (split_words ''a (b)'') ! 2
            \<in> set (merge_complex_acronyms (split_words ''a (b)''))
       \<and> text (merge_complex_acronyms (split_words ''a (b)'') ! 2) = []
       \<and> \<not> suffix (merge_complex_acronyms (split_words ''a (b)'') ! 2)
       \<and> (0::nat) \<le> 2 \<and> (2::nat) < 4 \<and> (4::nat) \<le> length (split_words ''a (b)'')"
    by code_simp
  have w: "word_like (split_words ''a (b)'' ! 2)" using t ev by blast
  have m: "word_like (merge_complex_acronyms (split_words ''a (b)'') ! 2)" using t ev by blast
  have cnt: "words_covered (split_words ''a (b)'') 0 4
       = words_covered (split_words ''a (b)'') 0 2 + 1 + words_covered (split_words ''a (b)'') (Suc 2) 4
     \<and> total_words (slice (split_words ''a (b)'') 0 4)
       = total_words (slice (split_words ''a (b)'') 0 2) + 1
         + total_words (slice (split_words ''a (b)'') (Suc 2) 4)"
    using t ev w by blast
  have s: "[] \<in> set (map text (split_words (''a'' @ CHR '' '' # CHR ''('' # ''b)'')))"
    using t ev by blast
  have "Suc 2 = 3" by simp
  then show ?thesis using ev w m cnt s by metis
qed

section \<open>Properties of path enumeration\<close>

lemma non_none_values_Nil [simp]: "non_none_values [] = []"
  by (simp add: non_none_values_def)

lemma non_none_values_Cons [simp]:
  "non_none_values (x # xs) = (case x of None \<Rightarrow> non_none_values xs | Some v \<Rightarrow> v # non_none_values xs)"
  by (simp add: non_none_values_def split: option.splits)

lemma non_none_values_append [simp]:
  "non_none_values (xs @ ys) = non_none_values xs @ non_none_values ys"
  by (simp add: non_none_values_def)

lemma set_non_none_values: "set (non_none_values p) = {v. Some v \<in> set p}"
  by (induction p) (auto split: option.splits)

lemma fold_max_Max: "fold max vs (v::nat) = Max (set (v # vs))"
  by (rule Max.set_eq_fold [symmetric])

lemma fold_min_Min: "fold min vs (v::nat) = Min (set (v # vs))"
  by (rule Min.set_eq_fold [symmetric])

lemma non_none_max_None: "non_none_max p = None \<longleftrightarrow> non_none_values p = []"
  by (simp add: non_none_max_def split: list.splits)

lemma non_none_min_None: "non_none_min p = None \<longleftrightarrow> non_none_values p = []"
  by (simp add: non_none_min_def split: list.splits)

lemma non_none_max_Some:
  "non_none_max p = Some mx \<longleftrightarrow>
     non_none_values p \<noteq> [] \<and> mx = Max (set (non_none_values p))"
  by (auto simp: non_none_max_def fold_max_Max split: list.splits)

lemma non_none_min_Some:
  "non_none_min p = Some mn \<longleftrightarrow>
     non_none_values p \<noteq> [] \<and> mn = Min (set (non_none_values p))"
  by (auto simp: non_none_min_def fold_min_Min split: list.splits)

lemma keep_choice_iff:
  "keep_choice (non_none_max path) choice
     \<longleftrightarrow> (case choice of None \<Rightarrow> True
          | Some c \<Rightarrow> \<forall>v \<in> set (non_none_values path). v < c)"
proof (cases "non_none_max path")
  case None
  then have "non_none_values path = []" by (simp add: non_none_max_None)
  then show ?thesis using None
    by (simp add: keep_choice_def split: option.splits)
next
  case (Some mx)
  then have ne: "non_none_values path \<noteq> []" and mx: "mx = Max (set (non_none_values path))"
    by (simp_all add: non_none_max_Some)
  show ?thesis
  proof (cases choice)
    case None
    then show ?thesis by (simp add: keep_choice_def Some)
  next
    case c: (Some c)
    have "mx < c \<longleftrightarrow> (\<forall>v \<in> set (non_none_values path). v < c)"
      using ne mx by simp
    then show ?thesis by (simp add: keep_choice_def Some c)
  qed
qed

lemma set_extend_paths:
  assumes "iteration_order ord"
  shows "set (extend_paths ord paths choices)
           = {path @ [choice] | path choice.
                path \<in> set paths
                \<and> (choice = None
                    \<or> (\<exists>c \<in> set choices. choice = Some c
                          \<and> (\<forall>v \<in> set (non_none_values path). v < c)))}"
proof -
  have ord: "\<And>xs. set (ord xs) = set xs" using assms by (simp add: iteration_order_def)
  show ?thesis
    unfolding extend_paths_def Let_def
    by (auto simp: ord keep_choice_iff split: option.splits)
qed

lemma set_first_paths:
  assumes "iteration_order ord"
  shows "set (first_paths ord words first_matches)
           = {[Some c] | c. c \<in> set first_matches \<and> word_like (words ! c)}"
proof -
  have ord: "\<And>xs. set (ord xs) = set xs" using assms by (simp add: iteration_order_def)
  show ?thesis
    unfolding first_paths_def
    by (auto simp: ord split: option.splits)
qed

lemma iteration_order_id: "iteration_order list_order"
  by (simp add: iteration_order_def list_order_def)

lemma set_foldl_extend_paths:
  assumes "iteration_order ord" "iteration_order ord'" "set ps = set ps'"
  shows "set (foldl (extend_paths ord) ps others) = set (foldl (extend_paths ord') ps' others)"
  using assms(3)
proof (induction others arbitrary: ps ps')
  case Nil
  then show ?case by simp
next
  case (Cons ch others)
  have "set (extend_paths ord ps ch) = set (extend_paths ord' ps' ch)"
    using Cons.prems by (simp add: set_extend_paths assms(1,2))
  then show ?case using Cons.IH by simp
qed

lemma set_all_paths:
  assumes "iteration_order ord"
  shows "set (all_paths ord words first_matches other_matches)
           = set (all_paths list_order words first_matches other_matches)"
  unfolding all_paths_def
  by (rule set_foldl_extend_paths [OF assms iteration_order_id])
     (simp add: set_first_paths assms iteration_order_id)

lemma foldl_extend_paths_invariant:
  assumes "iteration_order ord"
    and "\<forall>p \<in> set ps. length p = n \<and> p \<noteq> [] \<and> hd p \<noteq> None \<and> sorted_wrt (<) (non_none_values p)
                       \<and> set (non_none_values p) \<subseteq> A"
    and "\<forall>s \<in> set others. set s \<subseteq> A"
  shows "\<forall>p \<in> set (foldl (extend_paths ord) ps others).
           length p = n + length others \<and> p \<noteq> [] \<and> hd p \<noteq> None
           \<and> sorted_wrt (<) (non_none_values p) \<and> set (non_none_values p) \<subseteq> A"
  using assms(2,3)
proof (induction others arbitrary: ps n)
  case Nil
  then show ?case by simp
next
  case (Cons ch others)
  have step: "\<forall>p \<in> set (extend_paths ord ps ch).
           length p = Suc n \<and> p \<noteq> [] \<and> hd p \<noteq> None \<and> sorted_wrt (<) (non_none_values p)
           \<and> set (non_none_values p) \<subseteq> A"
  proof
    fix p assume "p \<in> set (extend_paths ord ps ch)"
    then obtain path choice where p: "p = path @ [choice]" and path: "path \<in> set ps"
      and choice: "choice = None
                    \<or> (\<exists>c \<in> set ch. choice = Some c \<and> (\<forall>v \<in> set (non_none_values path). v < c))"
      unfolding set_extend_paths [OF assms(1)] by blast
    have inv: "length path = n" "path \<noteq> []" "hd path \<noteq> None"
         "sorted_wrt (<) (non_none_values path)" "set (non_none_values path) \<subseteq> A"
      using Cons.prems(1) path by auto
    have chA: "set ch \<subseteq> A" using Cons.prems(2) by simp
    show "length p = Suc n \<and> p \<noteq> [] \<and> hd p \<noteq> None \<and> sorted_wrt (<) (non_none_values p)
           \<and> set (non_none_values p) \<subseteq> A"
      using p inv choice chA by (auto simp: sorted_wrt_append)
  qed
  have rest: "\<forall>s \<in> set others. set s \<subseteq> A" using Cons.prems(2) by simp
  have "\<forall>p \<in> set (foldl (extend_paths ord) (extend_paths ord ps ch) others).
           length p = Suc n + length others \<and> p \<noteq> [] \<and> hd p \<noteq> None
           \<and> sorted_wrt (<) (non_none_values p) \<and> set (non_none_values p) \<subseteq> A"
    by (rule Cons.IH [OF step rest])
  then show ?case by simp
qed

lemma all_paths_invariant:
  assumes "iteration_order ord" "p \<in> set (all_paths ord words first_matches other_matches)"
  shows "length p = 1 + length other_matches \<and> p \<noteq> [] \<and> hd p \<noteq> None
         \<and> sorted_wrt (<) (non_none_values p)
         \<and> set (non_none_values p) \<subseteq> set first_matches \<union> \<Union> (set ` set other_matches)"
proof -
  let ?A = "set first_matches \<union> \<Union> (set ` set other_matches)"
  have "\<forall>p \<in> set (first_paths ord words first_matches).
          length p = 1 \<and> p \<noteq> [] \<and> hd p \<noteq> None \<and> sorted_wrt (<) (non_none_values p)
          \<and> set (non_none_values p) \<subseteq> ?A"
    by (auto simp: set_first_paths [OF assms(1)])
  moreover have "\<forall>s \<in> set other_matches. set s \<subseteq> ?A" by blast
  ultimately show ?thesis
    using foldl_extend_paths_invariant [OF assms(1), of "first_paths ord words first_matches" 1 ?A other_matches]
      assms(2)
    unfolding all_paths_def by blast
qed

lemma sorted_non_none_nth:
  assumes "sorted_wrt (<) (non_none_values p)" "i < j" "j < length p"
    "p ! i = Some a" "p ! j = Some b"
  shows "a < b"
proof -
  have "p = take j p @ p ! j # drop (Suc j) p"
    using assms(3) by (simp add: id_take_nth_drop [symmetric])
  then have "non_none_values p
               = non_none_values (take j p) @ b # non_none_values (drop (Suc j) p)"
    using assms(5) by (metis non_none_values_append non_none_values_Cons option.simps(5))
  moreover have "Some a \<in> set (take j p)"
    using assms(2,3,4) by (metis in_set_conv_nth length_take min.absorb2 less_imp_le_nat nth_take)
  then have "a \<in> set (non_none_values (take j p))" by (simp add: set_non_none_values)
  ultimately show ?thesis using assms(1) by (auto simp: sorted_wrt_append)
qed

text \<open>
  C2, as amended: at every letter position a continuation of a path is retained exactly
  when it is ``missing'' or its token index is strictly greater than every non-missing
  index chosen so far (that is, than their running maximum); ``missing'' is always
  allowed. Consequently, in every enumerated path the non-missing entries strictly increase
  with the letter position: no two letter positions map to the same token index.
\<close>

theorem enumeration_strictly_increasing:
  assumes "iteration_order ord"
  shows "set (extend_paths ord paths choices)
           = {path @ [choice] | path choice.
                path \<in> set paths
                \<and> (choice = None
                    \<or> (\<exists>c \<in> set choices. choice = Some c
                          \<and> (\<forall>v \<in> set (non_none_values path). v < c)))}
         \<and> (\<forall>p \<in> set (all_paths ord words first_matches other_matches).
               \<forall>i j a b. i < j \<and> j < length p \<and> p ! i = Some a \<and> p ! j = Some b \<longrightarrow> a < b)"
proof (intro conjI ballI allI impI)
  show "set (extend_paths ord paths choices)
           = {path @ [choice] | path choice.
                path \<in> set paths
                \<and> (choice = None
                    \<or> (\<exists>c \<in> set choices. choice = Some c
                          \<and> (\<forall>v \<in> set (non_none_values path). v < c)))}"
    by (rule set_extend_paths [OF assms])
next
  fix p i j a b
  assume p: "p \<in> set (all_paths ord words first_matches other_matches)"
    and h: "i < j \<and> j < length p \<and> p ! i = Some a \<and> p ! j = Some b"
  have "sorted_wrt (<) (non_none_values p)"
    using all_paths_invariant [OF assms p] by simp
  then show "a < b" using h sorted_non_none_nth by blast
qed

theorem enumeration_strictly_increasing_witness:
  "iteration_order list_order
   \<and> [Some 0, Some 2] \<in> set (extend_paths list_order [[Some 0]] [0, 2])
   \<and> [Some 0, Some 0] \<notin> set (extend_paths list_order [[Some 0]] [0, 2])
   \<and> [Some 0, Some 2] \<in> set (all_paths list_order (split_words ''alpha beta (AB)'') [0] [[2]])
   \<and> (0::nat) < 1 \<and> (1::nat) < length [Some (0::nat), Some 2]
   \<and> (0::nat) < 2"
proof -
  have o: "iteration_order list_order" by (simp add: iteration_order_def list_order_def)
  note t = enumeration_strictly_increasing [OF o, of "[[Some 0]]" "[0, 2]"
             "split_words ''alpha beta (AB)''" "[0]" "[[2]]"]
  have m: "[Some 0, Some 2] \<in> set (all_paths list_order (split_words ''alpha beta (AB)'') [0] [[2]])"
    by code_simp
  have e: "set (extend_paths list_order [[Some 0]] [0, 2])
             = {path @ [choice] | path choice.
                path \<in> set [[Some 0]]
                \<and> (choice = None
                    \<or> (\<exists>c \<in> set [0, 2]. choice = Some c
                          \<and> (\<forall>v \<in> set (non_none_values path). v < c)))}"
    using t by blast
  have e1: "[Some 0, Some 2] \<in> set (extend_paths list_order [[Some 0]] [0, 2])"
    unfolding e by simp
  have e2: "[Some 0, Some 0] \<notin> set (extend_paths list_order [[Some 0]] [0, 2])"
    unfolding e by simp
  show ?thesis using o m e1 e2 by simp
qed

text \<open>
  C2 as stated fails: a continuation whose index equals the running maximum is dropped.
  For \<open>alpha (AA)\<close> both letters match token 0 only, and the one enumerated path is
  \<open>[0, missing]\<close>.
\<close>

theorem same_token_continuation_dropped:
  "keep_choice (non_none_max [Some 0]) (Some 0) = False
   \<and> [Some 0, Some 0] \<notin> set (extend_paths list_order [[Some 0]] [0])
   \<and> collect_matches (merge_complex_acronyms (split_words ''alpha (AA)'')) 4 2 3 [[], []]
       = [[0], [0]]
   \<and> all_paths list_order (merge_complex_acronyms (split_words ''alpha (AA)'')) [0] [[0]]
       = [[Some 0, None]]"
  by code_simp

section \<open>Properties of the filter\<close>

lemma slice_map_nth: "slice ws a b = map ((!) ws) [a..<min b (length ws)]"
  unfolding slice_def
proof (rule nth_equalityI)
  show "length (take (b - a) (drop a ws)) = length (map ((!) ws) [a..<min b (length ws)])"
    by auto
next
  fix i assume "i < length (take (b - a) (drop a ws))"
  then have i: "a + i < min b (length ws)" by auto
  have u: "[a..<min b (length ws)] ! i = a + i" using i by (rule nth_upt)
  have li: "i < length [a..<min b (length ws)]" using i by (simp add: min_def split: if_splits)
  have r: "map ((!) ws) [a..<min b (length ws)] ! i = ws ! (a + i)"
    using nth_map [OF li, of "(!) ws"] u by simp
  have ib: "i < b - a" and al: "a \<le> length ws" using i by linarith+
  have l: "take (b - a) (drop a ws) ! i = ws ! (a + i)"
    using ib al by (simp add: nth_drop)
  show "take (b - a) (drop a ws) ! i = map ((!) ws) [a..<min b (length ws)] ! i"
    using l r by simp
qed

lemma total_words_filter: "total_words span = length (filter word_like span)"
  unfolding total_words_def by (induction span) simp_all

lemma total_words_card:
  "total_words (slice ws a b) = card {i. a \<le> i \<and> i < b \<and> i < length ws \<and> word_like (ws ! i)}"
proof -
  have "total_words (slice ws a b)
          = length (filter (\<lambda>i. word_like (ws ! i)) [a..<min b (length ws)])"
    by (simp add: total_words_filter slice_map_nth filter_map comp_def)
  also have "\<dots> = card ({i. word_like (ws ! i)} \<inter> set [a..<min b (length ws)])"
    by (simp add: distinct_length_filter)
  also have "{i. word_like (ws ! i)} \<inter> set [a..<min b (length ws)]
               = {i. a \<le> i \<and> i < b \<and> i < length ws \<and> word_like (ws ! i)}"
    by auto
  finally show ?thesis .
qed

lemma length_non_none_values: "length (non_none_values p) = length p - count_nones p"
  by (induction p) (auto simp: count_nones_def Suc_diff_le split: option.splits)

lemma count_nones_le: "count_nones p \<le> length p"
  by (simp add: count_nones_def)

lemma path_kept_passes_filter:
  assumes "non_none_values path \<noteq> []"
  shows "path_kept ws m path = Inr (passes_filter ws m path)"
proof -
  obtain s e where s: "non_none_min path = Some s" "s = Min (set (non_none_values path))"
    and e: "non_none_max path = Some e" "e = Max (set (non_none_values path))"
    using assms by (simp add: non_none_min_Some non_none_max_Some)
  have card: "total_words (slice ws s (e + 1))
                = card {i. s \<le> i \<and> i \<le> e \<and> i < length ws \<and> word_like (ws ! i)}"
    by (simp add: total_words_card less_Suc_eq_le)
  have len: "int (length path) - int (count_nones path) = int (length (non_none_values path))"
    using count_nones_le [of path] by (simp add: length_non_none_values)
  show ?thesis
    unfolding path_kept_def passes_filter_def Let_def
    using s e card len by auto
qed

lemma filter_paths_passes_filter:
  assumes "\<forall>p \<in> set paths. non_none_values p \<noteq> []"
  shows "filter_paths ws m paths = Inr (filter (passes_filter ws m) paths)"
  using assms by (induction paths) (simp_all add: path_kept_passes_filter)

text \<open>
  C3, as amended: the word count that the filter compares against the number of matched
  letters plus \<open>max_intra_word_letters\<close> is the number of all word-like tokens in the
  span from the first to the last matched index, stop words included. A path with a
  matched letter is kept exactly when its missing letters are within the budget, the span
  is bracket-balanced and this count is within the bound; every enumerated path is
  filtered this way.
\<close>

theorem filter_counts_every_word_like_token:
  assumes "iteration_order ord"
  shows "(non_none_values path \<noteq> []
            \<longrightarrow> path_kept words m path = Inr (passes_filter words m path))
         \<and> filter_paths words m (all_paths ord words first_matches other_matches)
             = Inr (filter (passes_filter words m)
                      (all_paths ord words first_matches other_matches))"
proof
  show "non_none_values path \<noteq> []
            \<longrightarrow> path_kept words m path = Inr (passes_filter words m path)"
    by (simp add: path_kept_passes_filter)
next
  have "\<forall>p \<in> set (all_paths ord words first_matches other_matches). non_none_values p \<noteq> []"
  proof
    fix p assume "p \<in> set (all_paths ord words first_matches other_matches)"
    then have "p \<noteq> [] \<and> hd p \<noteq> None" using all_paths_invariant [OF assms] by blast
    then show "non_none_values p \<noteq> []" by (cases p) auto
  qed
  then show "filter_paths words m (all_paths ord words first_matches other_matches)
             = Inr (filter (passes_filter words m)
                      (all_paths ord words first_matches other_matches))"
    by (rule filter_paths_passes_filter)
qed

theorem filter_counts_every_word_like_token_witness:
  "iteration_order list_order \<and> non_none_values [Some 0, Some 8] \<noteq> []
   \<and> path_kept (split_words ''alpha of the and beta (AB)'') 2 [Some 0, Some 8]
       = Inr (passes_filter (split_words ''alpha of the and beta (AB)'') 2 [Some 0, Some 8])
   \<and> \<not> passes_filter (split_words ''alpha of the and beta (AB)'') 2 [Some 0, Some 8]"
proof -
  have o: "iteration_order list_order" by (simp add: iteration_order_def list_order_def)
  have n: "non_none_values [Some 0, Some 8] \<noteq> []" by simp
  have k: "path_kept (split_words ''alpha of the and beta (AB)'') 2 [Some 0, Some 8] = Inr False"
    by code_simp
  show ?thesis
    using o n k filter_counts_every_word_like_token
            [OF o, of "[Some 0, Some 8]" "split_words ''alpha of the and beta (AB)''" 2]
    by simp
qed

text \<open>
  C3 as stated fails: for \<open>alpha of the and beta (AB)\<close> the enumerated path
  \<open>[0, 8]\<close> has no missing letter and a balanced span with two words that are not stop
  words, within the bound \<open>2 + 2\<close>; the filter drops it, because it counts the five
  word-like tokens of the span.
\<close>

theorem stop_words_count_in_density:
  "path_kept (merge_complex_acronyms (split_words ''alpha of the and beta (AB)'')) 2
       [Some 0, Some 8] = Inr False
   \<and> collect_matches (merge_complex_acronyms (split_words ''alpha of the and beta (AB)''))
        12 2 11 [[], []] = [[0, 6], [8]]
   \<and> [Some 0, Some 8]
        \<in> set (all_paths list_order
                 (merge_complex_acronyms (split_words ''alpha of the and beta (AB)''))
                 [0, 6] [[8]])
   \<and> count_nones [Some 0, Some 8] = 0
   \<and> bracket_match (concat (map text
        (slice (merge_complex_acronyms (split_words ''alpha of the and beta (AB)'')) 0 9)))
   \<and> words_covered (merge_complex_acronyms (split_words ''alpha of the and beta (AB)'')) 0 9 = 2
   \<and> map text (filter word_like
        (slice (merge_complex_acronyms (split_words ''alpha of the and beta (AB)'')) 0 9))
       = [''alpha'', ''of'', ''the'', ''and'', ''beta'']"
  by code_simp

section \<open>Sentence isolation\<close>

lemma add_matches_elem:
  assumes "s' \<in> set (add_matches ws letters p M)" "j \<in> set s'"
  shows "j = p \<or> (\<exists>s \<in> set M. j \<in> set s)"
proof -
  obtain letter s where z: "(letter, s) \<in> set (zip letters M)"
    and s': "s' = (if letter_matches (ws ! p) letter then List.insert p s else s)"
    using assms(1) unfolding add_matches_def by auto
  have "s \<in> set M" using z by (rule set_zip_rightD)
  then show ?thesis using s' assms(2) by (auto split: if_splits)
qed

lemma collect_matches_visited:
  assumes "k \<le> n"
    and "\<forall>s \<in> set M. \<forall>j \<in> set s. k \<le> j \<and> j < n"
    and "\<forall>i. k \<le> i \<and> i < n \<longrightarrow> sentence_number (ws ! i) = sentence_number (ws ! apos)"
  shows "\<forall>s \<in> set (collect_matches ws apos m k M). \<forall>j \<in> set s.
           j < n \<and> (\<forall>i. j \<le> i \<and> i < n
                      \<longrightarrow> sentence_number (ws ! i) = sentence_number (ws ! apos))"
  using assms
proof (induction k arbitrary: M)
  case 0
  then show ?case by simp
next
  case (Suc p)
  show ?case
  proof (cases "sentence_number (ws ! p) \<noteq> sentence_number (ws ! apos)
           \<or> int (words_covered ws p apos) > int (length (text (ws ! apos))) + m")
    case True
    then have "collect_matches ws apos m (Suc p) M = M" by auto
    then show ?thesis using Suc.prems by (metis le_trans)
  next
    case False
    let ?M = "add_matches ws (text (ws ! apos)) p M"
    have eq: "collect_matches ws apos m (Suc p) M = collect_matches ws apos m p ?M"
      using False by auto
    have a: "p \<le> n" using Suc.prems(1) by simp
    have b: "\<forall>s \<in> set ?M. \<forall>j \<in> set s. p \<le> j \<and> j < n"
    proof (intro ballI)
      fix s j assume "s \<in> set ?M" "j \<in> set s"
      then have "j = p \<or> (\<exists>s \<in> set M. j \<in> set s)" by (rule add_matches_elem)
      then show "p \<le> j \<and> j < n"
      proof
        assume "j = p"
        then show ?thesis using Suc.prems(1) by simp
      next
        assume "\<exists>s \<in> set M. j \<in> set s"
        then have "Suc p \<le> j \<and> j < n" using Suc.prems(2) by blast
        then show ?thesis by simp
      qed
    qed
    have c: "\<forall>i. p \<le> i \<and> i < n \<longrightarrow> sentence_number (ws ! i) = sentence_number (ws ! apos)"
    proof (intro allI impI)
      fix i assume i: "p \<le> i \<and> i < n"
      show "sentence_number (ws ! i) = sentence_number (ws ! apos)"
      proof (cases "i = p")
        case True
        then show ?thesis using False by simp
      next
        case False
        then have "Suc p \<le> i" using i by simp
        then show ?thesis using Suc.prems(3) i by blast
      qed
    qed
    show ?thesis unfolding eq by (rule Suc.IH [OF a b c])
  qed
qed

lemma filter_paths_subset:
  "filter_paths ws m paths = Inr filtered \<Longrightarrow> set filtered \<subseteq> set paths"
  by (induction paths arbitrary: filtered) (auto split: sum.splits if_splits)

lemma min_path_loop_mem:
  "min_path_loop best best_key ps = Inr b \<Longrightarrow> b = best \<or> b \<in> set ps"
  by (induction ps arbitrary: best best_key) (auto split: sum.splits if_splits)

lemma min_path_mem: "min_path paths = Inr b \<Longrightarrow> b \<in> set paths"
  unfolding min_path_def
  by (auto split: list.splits sum.splits dest: min_path_loop_mem)

lemma interpolate_elem:
  assumes "1 \<le> i" "i + length zs \<le> length bp" "Some j \<in> set (interpolate ws zs i bp)"
  shows "Some j \<in> set bp"
  using assms
proof (induction zs arbitrary: i bp)
  case Nil
  then show ?case by simp
next
  case (Cons z zs)
  obtain match letter where z: "z = (match, letter)" by (cases z)
  have len: "i + 1 + length zs \<le> length bp" "1 \<le> i + 1" using Cons.prems by simp_all
  show ?case
  proof (cases match)
    case (Some a)
    then have "interpolate ws (z # zs) i bp = interpolate ws zs (i + 1) bp" using z by simp
    then show ?thesis using Cons.IH [OF len(2) len(1)] Cons.prems(3) by simp
  next
    case None
    show ?thesis
    proof (cases "bp ! (i - 1)")
      case n: None
      then show ?thesis using Cons.prems(3) z None by simp
    next
      case (Some prev)
      have "i - 1 < length bp" using Cons.prems by simp
      then have prev: "Some prev \<in> set bp" using Some by (metis nth_mem)
      let ?bp = "bp[i := Some prev]"
      have sub: "set ?bp \<subseteq> insert (Some prev) (set bp)" by (rule set_update_subset_insert)
      have "Some j \<in> set (interpolate ws zs (i + 1) bp)
            \<or> Some j \<in> set (interpolate ws zs (i + 1) ?bp)"
        using Cons.prems(3) z None Some by (auto split: if_splits)
      then show ?thesis
      proof
        assume "Some j \<in> set (interpolate ws zs (i + 1) bp)"
        then show ?thesis using Cons.IH [OF len(2) len(1)] by simp
      next
        assume "Some j \<in> set (interpolate ws zs (i + 1) ?bp)"
        moreover have "i + 1 + length zs \<le> length ?bp" using len by simp
        ultimately have "Some j \<in> set ?bp" using Cons.IH [OF len(2)] by blast
        then show ?thesis using sub prev by auto
      qed
    qed
  qed
qed

lemma non_none_min_mem: "non_none_min p = Some lo \<Longrightarrow> Some lo \<in> set p"
proof -
  assume "non_none_min p = Some lo"
  then have "non_none_values p \<noteq> []" "lo = Min (set (non_none_values p))"
    by (simp_all add: non_none_min_Some)
  then have "lo \<in> set (non_none_values p)" by (metis List.finite_set Min_in set_empty)
  then show ?thesis by (simp add: set_non_none_values)
qed

lemma definition_span_SomeD:
  assumes "definition_span ord ws m apos = Inr (Some (lo, hi))"
  shows "\<exists>first_matches other_matches filtered best.
           collect_matches ws apos m (apos - 1) (map (\<lambda>_. []) (text (ws ! apos)))
             = first_matches # other_matches
           \<and> filter_paths ws m (all_paths ord ws first_matches other_matches) = Inr filtered
           \<and> min_path filtered = Inr best
           \<and> non_none_min (interpolate ws (drop 1 (zip best (text (ws ! apos)))) 1 best)
               = Some lo
           \<and> hi = apos - 1"
  using assms unfolding definition_span_def Let_def
  by (auto split: list.splits if_splits sum.splits option.splits)

lemma definition_span_same_sentence:
  assumes "iteration_order ord" "definition_span ord ws m apos = Inr (Some (lo, hi))"
  shows "hi = apos - 1 \<and> lo < hi
         \<and> (\<forall>i. lo \<le> i \<and> i < hi
               \<longrightarrow> sentence_number (ws ! i) = sentence_number (ws ! apos))"
proof -
  let ?letters = "text (ws ! apos)"
  obtain first_matches other_matches filtered best where
    cm: "collect_matches ws apos m (apos - 1) (map (\<lambda>_. []) ?letters)
           = first_matches # other_matches"
    and fp: "filter_paths ws m (all_paths ord ws first_matches other_matches) = Inr filtered"
    and mp: "min_path filtered = Inr best"
    and lo: "non_none_min (interpolate ws (drop 1 (zip best ?letters)) 1 best) = Some lo"
    and hi: "hi = apos - 1"
    using definition_span_SomeD [OF assms(2)] by blast
  have visited: "\<forall>s \<in> set (first_matches # other_matches). \<forall>j \<in> set s.
           j < apos - 1 \<and> (\<forall>i. j \<le> i \<and> i < apos - 1
                      \<longrightarrow> sentence_number (ws ! i) = sentence_number (ws ! apos))"
    unfolding cm [symmetric]
    by (rule collect_matches_visited) auto
  have "best \<in> set (all_paths ord ws first_matches other_matches)"
    using min_path_mem [OF mp] filter_paths_subset [OF fp] by blast
  then have inv: "best \<noteq> []"
      "set (non_none_values best) \<subseteq> set first_matches \<union> \<Union> (set ` set other_matches)"
    using all_paths_invariant [OF assms(1)] by blast+
  have len: "1 + length (drop 1 (zip best ?letters)) \<le> length best"
    using inv(1) by (cases best) simp_all
  have "Some lo \<in> set (interpolate ws (drop 1 (zip best ?letters)) 1 best)"
    by (rule non_none_min_mem [OF lo])
  then have "Some lo \<in> set best"
    by (rule interpolate_elem [OF le_refl len])
  then have "lo \<in> set (non_none_values best)" by (simp add: set_non_none_values)
  then obtain s where "s \<in> set (first_matches # other_matches)" "lo \<in> set s"
    using inv(2) by auto
  then show ?thesis using visited hi by blast
qed

lemma mark_acronyms_loop_emitted:
  assumes "mark_acronyms_loop ord ws m poss acc = Inr res" "res a = Some defns" "d \<in> defns"
  shows "(\<exists>defns0. acc a = Some defns0 \<and> d \<in> defns0)
         \<or> (\<exists>apos \<in> set poss. \<exists>span. acronym_like (ws ! apos) \<and> text (ws ! apos) = a
               \<and> definition_span ord ws m apos = Inr (Some span)
               \<and> d = definition_text ws span)"
  using assms
proof (induction poss arbitrary: acc)
  case Nil
  then show ?case by simp
next
  case (Cons apos poss)
  show ?case
  proof (cases "acronym_like (ws ! apos)")
    case False
    then have "mark_acronyms_loop ord ws m poss acc = Inr res" using Cons.prems(1) by simp
    from Cons.IH [OF this Cons.prems(2,3)] show ?thesis by auto
  next
    case True
    show ?thesis
    proof (cases "definition_span ord ws m apos")
      case (Inl e)
      then show ?thesis using Cons.prems(1) True by simp
    next
      case (Inr r)
      show ?thesis
      proof (cases r)
        case None
        then have "mark_acronyms_loop ord ws m poss acc = Inr res"
          using Cons.prems(1) True Inr by simp
        from Cons.IH [OF this Cons.prems(2,3)] show ?thesis by auto
      next
        case (Some span)
        let ?acc = "add_definition acc (text (ws ! apos)) (definition_text ws span)"
        have "mark_acronyms_loop ord ws m poss ?acc = Inr res"
          using Cons.prems(1) True Inr Some by simp
        from Cons.IH [OF this Cons.prems(2,3)]
        consider defns0 where "?acc a = Some defns0" "d \<in> defns0"
          | "\<exists>apos \<in> set poss. \<exists>span. acronym_like (ws ! apos) \<and> text (ws ! apos) = a
               \<and> definition_span ord ws m apos = Inr (Some span)
               \<and> d = definition_text ws span"
          by blast
        then show ?thesis
        proof cases
          case 1
          show ?thesis
          proof (cases "a = text (ws ! apos) \<and> d = definition_text ws span")
            case t: True
            then have "acronym_like (ws ! apos) \<and> text (ws ! apos) = a
               \<and> definition_span ord ws m apos = Inr (Some span)
               \<and> d = definition_text ws span"
              using True Inr Some by simp
            then show ?thesis by (metis list.set_intros(1))
          next
            case False
            then have "\<exists>defns0. acc a = Some defns0 \<and> d \<in> defns0"
              using 1 by (auto simp: add_definition_def split: if_splits option.splits)
            then show ?thesis by blast
          qed
        next
          case 2
          then show ?thesis by auto
        qed
      qed
    qed
  qed
qed

text \<open>
  C5: every definition that \<open>mark_acronyms\<close> records comes from an acronym-like token
  at some position \<open>apos\<close> and is the text of a non-empty span of tokens \<open>lo..<hi\<close>
  before that token; every token of the span has the sentence number of the acronym-like
  token, so no word of an earlier sentence is part of an alignment.
\<close>

theorem sentence_isolation:
  assumes "iteration_order ord"
    and "mark_acronyms ord input m = Inr acronyms"
    and "acronyms a = Some defns" and "d \<in> defns"
  shows "\<exists>apos lo hi.
           apos < length (merge_complex_acronyms (split_words input))
           \<and> acronym_like (merge_complex_acronyms (split_words input) ! apos)
           \<and> text (merge_complex_acronyms (split_words input) ! apos) = a
           \<and> definition_span ord (merge_complex_acronyms (split_words input)) m apos
               = Inr (Some (lo, hi))
           \<and> d = definition_text (merge_complex_acronyms (split_words input)) (lo, hi)
           \<and> lo < hi \<and> hi < apos
           \<and> (\<forall>i. lo \<le> i \<and> i < hi
                 \<longrightarrow> sentence_number (merge_complex_acronyms (split_words input) ! i)
                     = sentence_number (merge_complex_acronyms (split_words input) ! apos))"
proof -
  let ?ws = "merge_complex_acronyms (split_words input)"
  have "mark_acronyms_loop ord ?ws m [0..<length ?ws] Map.empty = Inr acronyms"
    using assms(2) by (simp add: mark_acronyms_def Let_def)
  from mark_acronyms_loop_emitted [OF this assms(3,4)]
  obtain apos span where apos: "apos < length ?ws" "acronym_like (?ws ! apos)"
      "text (?ws ! apos) = a"
    and span: "definition_span ord ?ws m apos = Inr (Some span)" "d = definition_text ?ws span"
    by auto
  obtain lo hi where lh: "span = (lo, hi)" by (cases span)
  have "hi = apos - 1 \<and> lo < hi
         \<and> (\<forall>i. lo \<le> i \<and> i < hi
               \<longrightarrow> sentence_number (?ws ! i) = sentence_number (?ws ! apos))"
    using definition_span_same_sentence [OF assms(1)] span(1) lh by blast
  moreover from this have "hi < apos" by linarith
  ultimately show ?thesis using apos span lh by blast
qed

section \<open>Independence of the iteration order\<close>

lemma key_less_asym: "key_less a b \<Longrightarrow> \<not> key_less b a"
  by (cases a, cases b) auto

lemma key_less_irrefl: "\<not> key_less a a"
  by (cases a) auto

lemma min_path_loop_unique:
  assumes "path_key best = Inr kb"
    and "path_key c = Inr kc"
    and "c = best \<or> best \<in> set ps"
    and "\<forall>q \<in> set (c # ps). q \<noteq> best \<longrightarrow> (\<exists>kq. path_key q = Inr kq \<and> key_less kb kq)"
  shows "min_path_loop c kc ps = Inr best"
  using assms(2-)
proof (induction ps arbitrary: c kc)
  case Nil
  then show ?case by simp
next
  case (Cons p ps)
  show ?case
  proof (cases "p = best")
    case True
    show ?thesis
    proof (cases "c = best")
      case c: True
      then have "kc = kb" using Cons.prems(1) assms(1) by simp
      then have "min_path_loop c kc (p # ps) = min_path_loop best kb ps"
        using True c assms(1) by (simp add: key_less_irrefl)
      moreover have "min_path_loop best kb ps = Inr best"
        using Cons.prems(3) by (intro Cons.IH) (auto simp: assms(1))
      ultimately show ?thesis by simp
    next
      case False
      then have "key_less kb kc" using Cons.prems(1,3) by auto
      then have "min_path_loop c kc (p # ps) = min_path_loop best kb ps"
        using True assms(1) by simp
      moreover have "min_path_loop best kb ps = Inr best"
        using Cons.prems(3) by (intro Cons.IH) (auto simp: assms(1))
      ultimately show ?thesis by simp
    qed
  next
    case False
    then obtain kp where kp: "path_key p = Inr kp" "key_less kb kp"
      using Cons.prems(3) by auto
    show ?thesis
    proof (cases "key_less kp kc")
      case True
      have c: "c \<noteq> best"
      proof
        assume "c = best"
        then have "kc = kb" using Cons.prems(1) assms(1) by simp
        then have "key_less kp kb" using True by simp
        then show False using kp(2) key_less_asym by blast
      qed
      have "min_path_loop c kc (p # ps) = min_path_loop p kp ps"
        using True kp by simp
      moreover have "min_path_loop p kp ps = Inr best"
        using Cons.prems(2,3) c False kp(1) by (intro Cons.IH) auto
      ultimately show ?thesis by simp
    next
      case k: False
      then have "min_path_loop c kc (p # ps) = min_path_loop c kc ps"
        using kp by simp
      moreover have "min_path_loop c kc ps = Inr best"
        using Cons.prems False by (intro Cons.IH) auto
      ultimately show ?thesis by simp
    qed
  qed
qed

lemma min_path_unique:
  assumes "best \<in> set paths" "path_key best = Inr kb"
    and "\<forall>q \<in> set paths. q \<noteq> best \<longrightarrow> (\<exists>kq. path_key q = Inr kq \<and> key_less kb kq)"
  shows "min_path paths = Inr best"
proof (cases paths)
  case Nil
  then show ?thesis using assms(1) by simp
next
  case (Cons c ps)
  obtain kc where kc: "path_key c = Inr kc"
    using assms(2,3) Cons by (cases "c = best") auto
  have "min_path_loop c kc ps = Inr best"
    using assms Cons kc by (intro min_path_loop_unique [OF assms(2)]) auto
  then show ?thesis using Cons kc by (simp add: min_path_def)
qed

lemma path_key_Inr: "non_none_values p \<noteq> [] \<Longrightarrow> \<exists>k. path_key p = Inr k"
  unfolding path_key_def
  by (cases "non_none_min p"; cases "non_none_max p")
     (simp_all add: non_none_min_None non_none_max_None)

lemma all_paths_matched:
  assumes "iteration_order ord"
  shows "\<forall>p \<in> set (all_paths ord ws first_matches other_matches). non_none_values p \<noteq> []"
proof
  fix p assume "p \<in> set (all_paths ord ws first_matches other_matches)"
  then have "p \<noteq> [] \<and> hd p \<noteq> None" using all_paths_invariant [OF assms] by blast
  then show "non_none_values p \<noteq> []" by (cases p) auto
qed

lemma definition_span_order_independent:
  assumes "iteration_order ord" "unique_best ws m apos"
  shows "definition_span ord ws m apos = definition_span list_order ws m apos"
proof (cases "collect_matches ws apos m (apos - 1) (map (\<lambda>_. []) (text (ws ! apos)))")
  case Nil
  then show ?thesis by (simp add: definition_span_def)
next
  case (Cons first_matches other_matches)
  let ?P = "all_paths ord ws first_matches other_matches"
  let ?Q = "all_paths list_order ws first_matches other_matches"
  let ?fp = "filter (passes_filter ws m) ?P"
  let ?fq = "filter (passes_filter ws m) ?Q"
  have PQ: "set ?P = set ?Q" by (rule set_all_paths [OF assms(1)])
  have fP: "filter_paths ws m ?P = Inr ?fp"
    by (rule filter_paths_passes_filter [OF all_paths_matched [OF assms(1)]])
  have fQ: "filter_paths ws m ?Q = Inr ?fq"
    by (rule filter_paths_passes_filter [OF all_paths_matched [OF iteration_order_id]])
  have sets: "set ?fp = set ?fq" using PQ by simp
  show ?thesis
  proof (cases "?fq = []")
    case True
    then have "?fp = []" using sets by (metis set_empty)
    then show ?thesis using True Cons fP fQ by (simp add: definition_span_def)
  next
    case False
    then have neP: "?fp \<noteq> []" using sets by (metis set_empty)
    from assms(2) obtain best where best: "min_path ?fq = Inr best"
      and uniq: "\<forall>q \<in> set ?fq. q \<noteq> best \<longrightarrow>
                       (case (path_key best, path_key q) of
                          (Inr kb, Inr kq) \<Rightarrow> key_less kb kq
                        | _ \<Rightarrow> False)"
      using False Cons fQ unfolding unique_best_def by (auto split: sum.splits)
    have mem: "best \<in> set ?fq" by (rule min_path_mem [OF best])
    then have "non_none_values best \<noteq> []"
      using all_paths_matched [OF iteration_order_id] by auto
    then obtain kb where kb: "path_key best = Inr kb" using path_key_Inr by blast
    have "\<forall>q \<in> set ?fp. q \<noteq> best \<longrightarrow> (\<exists>kq. path_key q = Inr kq \<and> key_less kb kq)"
    proof (intro ballI impI)
      fix q assume "q \<in> set ?fp" "q \<noteq> best"
      then have "case (path_key best, path_key q) of
                          (Inr kb, Inr kq) \<Rightarrow> key_less kb kq
                        | _ \<Rightarrow> False"
        using uniq sets by blast
      then show "\<exists>kq. path_key q = Inr kq \<and> key_less kb kq"
        using kb by (cases "path_key q") simp_all
    qed
    moreover have "best \<in> set ?fp" using mem sets by simp
    ultimately have bestP: "min_path ?fp = Inr best" using kb by (intro min_path_unique) auto
    obtain x xs where fpe: "?fp = x # xs" using neP by (cases ?fp) auto
    obtain y ys where fqe: "?fq = y # ys" using False by (cases ?fq) auto
    have m1: "min_path (x # xs) = Inr best" using bestP fpe by simp
    have m2: "min_path (y # ys) = Inr best" using best fqe by simp
    have f1: "filter_paths ws m ?P = Inr (x # xs)" using fP fpe by simp
    have f2: "filter_paths ws m ?Q = Inr (y # ys)" using fQ fqe by simp
    show ?thesis
      using Cons f1 f2 m1 m2 by (simp add: definition_span_def Let_def)
  qed
qed

lemma mark_acronyms_loop_order_independent:
  assumes "iteration_order ord"
    and "\<forall>apos \<in> set poss. acronym_like (ws ! apos) \<longrightarrow> unique_best ws m apos"
  shows "mark_acronyms_loop ord ws m poss acc = mark_acronyms_loop list_order ws m poss acc"
  using assms(2)
proof (induction poss arbitrary: acc)
  case Nil
  then show ?case by simp
next
  case (Cons apos poss)
  have ih: "\<And>acc. mark_acronyms_loop ord ws m poss acc
                    = mark_acronyms_loop list_order ws m poss acc"
    using Cons by simp
  show ?case
  proof (cases "acronym_like (ws ! apos)")
    case False
    then show ?thesis using ih by simp
  next
    case True
    then have "definition_span ord ws m apos = definition_span list_order ws m apos"
      using Cons.prems assms(1) by (intro definition_span_order_independent) auto
    then show ?thesis using True ih by (simp split: sum.splits option.splits)
  qed
qed

lemma mark_acronyms_order_independent:
  assumes "iteration_order ord" "order_independent input m"
  shows "mark_acronyms ord input m = mark_acronyms list_order input m"
  using assms(2) unfolding mark_acronyms_def order_independent_def Let_def
  by (intro mark_acronyms_loop_order_independent [OF assms(1)]) simp

lemma mark_acronyms_loop_skip:
  "mark_acronyms_loop ord ws m poss acc
     = mark_acronyms_loop ord ws m (filter (\<lambda>p. acronym_like (ws ! p)) poss) acc"
  by (induction poss arbitrary: acc) (simp_all split: sum.splits option.splits)

text \<open>
  A two-sentence input in which the only matching words precede the period: nothing is
  recorded.
\<close>

lemma two_sentence_example:
  assumes "iteration_order ord"
  shows "mark_acronyms ord ''Bad cat. (BC)'' 2 = Inr Map.empty"
proof -
  let ?T = "''Bad cat. (BC)''"
  let ?ws = "merge_complex_acronyms (split_words ?T)"
  have oi: "order_independent ?T 2" by code_simp
  have pos: "filter (\<lambda>p. acronym_like (?ws ! p)) [0..<length ?ws] = [8]" by code_simp
  have al: "acronym_like (?ws ! 8)" by code_simp
  have span: "definition_span list_order ?ws 2 8 = Inr None" by code_simp
  have "mark_acronyms ord ?T 2 = mark_acronyms list_order ?T 2"
    by (rule mark_acronyms_order_independent [OF assms oi])
  also have "\<dots> = mark_acronyms_loop list_order ?ws 2 [8] Map.empty"
    unfolding mark_acronyms_def Let_def
    by (subst mark_acronyms_loop_skip) (simp only: pos)
  also have "\<dots> = Inr Map.empty"
    using al span by simp
  finally show ?thesis .
qed

theorem sentence_isolation_witness:
  "iteration_order list_order
   \<and> mark_acronyms list_order ''Bad cat. Big cat (BC)'' 2 = Inr [''BC'' \<mapsto> {''Big cat''}]
   \<and> [''BC'' \<mapsto> {''Big cat''}] ''BC'' = Some {''Big cat''}
   \<and> ''Big cat'' \<in> {''Big cat''}
   \<and> (\<exists>apos lo hi.
           apos < length (merge_complex_acronyms (split_words ''Bad cat. Big cat (BC)''))
           \<and> acronym_like (merge_complex_acronyms (split_words ''Bad cat. Big cat (BC)'') ! apos)
           \<and> text (merge_complex_acronyms (split_words ''Bad cat. Big cat (BC)'') ! apos) = ''BC''
           \<and> ''Big cat''
               = definition_text (merge_complex_acronyms (split_words ''Bad cat. Big cat (BC)''))
                   (lo, hi)
           \<and> lo < hi \<and> hi < apos
           \<and> (\<forall>i. lo \<le> i \<and> i < hi
                 \<longrightarrow> sentence_number
                       (merge_complex_acronyms (split_words ''Bad cat. Big cat (BC)'') ! i)
                     = sentence_number
                         (merge_complex_acronyms (split_words ''Bad cat. Big cat (BC)'') ! apos)))"
proof -
  let ?T = "''Bad cat. Big cat (BC)''"
  let ?ws = "merge_complex_acronyms (split_words ?T)"
  have o: "iteration_order list_order" by (simp add: iteration_order_def list_order_def)
  have pos: "filter (\<lambda>p. acronym_like (?ws ! p)) [0..<length ?ws] = [12]" by code_simp
  have al: "acronym_like (?ws ! 12)" by code_simp
  have span: "definition_span list_order ?ws 2 12 = Inr (Some (6, 11))" by code_simp
  have key: "text (?ws ! 12) = ''BC''" by code_simp
  have defn: "definition_text ?ws (6, 11) = ''Big cat''" by code_simp
  have "mark_acronyms list_order ?T 2 = mark_acronyms_loop list_order ?ws 2 [12] Map.empty"
    unfolding mark_acronyms_def Let_def
    by (subst mark_acronyms_loop_skip) (simp only: pos)
  also have "\<dots> = Inr [''BC'' \<mapsto> {''Big cat''}]"
    using al span key defn by (simp add: add_definition_def)
  finally have m: "mark_acronyms list_order ?T 2 = Inr [''BC'' \<mapsto> {''Big cat''}]" .
  have l: "[''BC'' \<mapsto> {''Big cat''}] ''BC'' = Some {''Big cat''}" by simp
  have d: "''Big cat'' \<in> {''Big cat''}" by simp
  show ?thesis
    using o m l d sentence_isolation [OF o m l d] by blast
qed

section \<open>No error is raised\<close>

lemma looks_like_acronym_nonempty: "looks_like_acronym w \<Longrightarrow> w \<noteq> []"
  by (auto simp: looks_like_acronym_def ACRONYM_PATTERN_def)

lemma split_words_loop_acronym_nonempty:
  "tok \<in> set (split_words_loop words pos sc rest) \<Longrightarrow> acronym_like tok \<Longrightarrow> text tok \<noteq> []"
  by (induction rest arbitrary: pos sc)
     (auto simp: mk_word_def Let_def dest: looks_like_acronym_nonempty)

lemma merge_acronym_nonempty:
  "tok \<in> set (merge_complex_acronyms ws) \<Longrightarrow> tok \<in> set ws \<or> text tok \<noteq> []"
  by (induction ws rule: merge_complex_acronyms.induct)
     (auto simp: Let_def split: if_splits dest: looks_like_acronym_nonempty)

lemma length_add_matches:
  "length M = length letters \<Longrightarrow> length (add_matches ws letters p M) = length M"
  by (simp add: add_matches_def)

lemma length_collect_matches:
  "length M = length (text (ws ! apos)) \<Longrightarrow> length (collect_matches ws apos m k M) = length M"
  by (induction k arbitrary: M) (simp_all add: length_add_matches)

lemma min_path_loop_total:
  "\<forall>q \<in> set ps. non_none_values q \<noteq> [] \<Longrightarrow> \<exists>b. min_path_loop c kc ps = Inr b"
proof (induction ps arbitrary: c kc)
  case Nil
  then show ?case by simp
next
  case (Cons p ps)
  have "non_none_values p \<noteq> []" using Cons.prems by simp
  then obtain kp where "path_key p = Inr kp" using path_key_Inr by blast
  then show ?case using Cons by simp
qed

lemma min_path_total:
  assumes "paths \<noteq> []" "\<forall>q \<in> set paths. non_none_values q \<noteq> []"
  shows "\<exists>b. min_path paths = Inr b"
proof -
  obtain c ps where cps: "paths = c # ps" using assms(1) by (cases paths) auto
  then have "non_none_values c \<noteq> []" using assms(2) by simp
  then obtain kc where "path_key c = Inr kc" using path_key_Inr by blast
  then show ?thesis using cps assms(2) min_path_loop_total [of ps c kc]
    by (simp add: min_path_def)
qed

lemma length_interpolate: "length (interpolate ws zs i bp) = length bp"
  by (induction ws zs i bp rule: interpolate.induct) (auto split: option.splits)

lemma no_nones_min:
  assumes "count_nones p = 0" "p \<noteq> []"
  shows "\<exists>lo. non_none_min p = Some lo"
proof -
  have "length (non_none_values p) = length p"
    using assms(1) by (simp add: length_non_none_values)
  then have "non_none_values p \<noteq> []" using assms(2) by auto
  then show ?thesis by (simp add: non_none_min_Some)
qed

lemma definition_span_total:
  assumes "iteration_order ord" "text (ws ! apos) \<noteq> []"
  shows "\<exists>r. definition_span ord ws m apos = Inr r"
proof -
  let ?letters = "text (ws ! apos)"
  let ?M = "collect_matches ws apos m (apos - 1) (map (\<lambda>_. []) ?letters)"
  have "length ?M = length ?letters" by (simp add: length_collect_matches)
  then obtain first_matches other_matches where M: "?M = first_matches # other_matches"
    using assms(2) by (cases ?M) auto
  let ?P = "all_paths ord ws first_matches other_matches"
  let ?fp = "filter (passes_filter ws m) ?P"
  have matched: "\<forall>p \<in> set ?P. non_none_values p \<noteq> []"
    by (rule all_paths_matched [OF assms(1)])
  have fP: "filter_paths ws m ?P = Inr ?fp"
    by (rule filter_paths_passes_filter [OF matched])
  show ?thesis
  proof (cases "first_matches = [] \<or> ?fp = []")
    case True
    then show ?thesis using M fP by (auto simp: definition_span_def)
  next
    case False
    then obtain x xs where fpe: "?fp = x # xs" by (cases ?fp) auto
    have "\<forall>q \<in> set ?fp. non_none_values q \<noteq> []" using matched by simp
    then obtain best where best: "min_path ?fp = Inr best"
      using min_path_total [of ?fp] False by blast
    then have "best \<in> set ?P" using min_path_mem by fastforce
    then have ne: "best \<noteq> []" using all_paths_invariant [OF assms(1)] by blast
    let ?bp = "interpolate ws (drop 1 (zip best ?letters)) 1 best"
    have "?bp \<noteq> []" using ne length_interpolate [of ws _ 1 best] by (metis length_0_conv)
    then have "count_nones ?bp = 0 \<longrightarrow> (\<exists>lo. non_none_min ?bp = Some lo)"
      using no_nones_min by blast
    moreover have f1: "filter_paths ws m ?P = Inr (x # xs)" using fP fpe by simp
    moreover have "min_path (x # xs) = Inr best" using best fpe by simp
    ultimately show ?thesis
      using M False by (auto simp: definition_span_def Let_def)
  qed
qed

lemma mark_acronyms_loop_total:
  assumes "iteration_order ord"
    and "\<forall>apos \<in> set poss. acronym_like (ws ! apos) \<longrightarrow> text (ws ! apos) \<noteq> []"
  shows "\<exists>res. mark_acronyms_loop ord ws m poss acc = Inr res"
  using assms(2)
proof (induction poss arbitrary: acc)
  case Nil
  then show ?case by simp
next
  case (Cons apos poss)
  have ih: "\<And>acc. \<exists>res. mark_acronyms_loop ord ws m poss acc = Inr res"
    using Cons by simp
  show ?case
  proof (cases "acronym_like (ws ! apos)")
    case False
    then show ?thesis using ih by simp
  next
    case True
    then have "text (ws ! apos) \<noteq> []" using Cons.prems by simp
    then obtain r where "definition_span ord ws m apos = Inr r"
      using definition_span_total [OF assms(1)] by blast
    then show ?thesis using True ih by (cases r) simp_all
  qed
qed

text \<open>
  On every input text \<open>mark_acronyms\<close> returns a map: none of the errors of the model
  (an empty acronym, a path without a matched letter, an empty list of paths) is reachable.
\<close>

lemma mark_acronyms_total:
  assumes "iteration_order ord"
  shows "\<exists>acronyms. mark_acronyms ord input m = Inr acronyms"
proof -
  let ?ws = "merge_complex_acronyms (split_words input)"
  have "\<forall>apos \<in> set [0..<length ?ws]. acronym_like (?ws ! apos) \<longrightarrow> text (?ws ! apos) \<noteq> []"
  proof (intro ballI impI)
    fix apos assume "apos \<in> set [0..<length ?ws]" and al: "acronym_like (?ws ! apos)"
    then have "?ws ! apos \<in> set ?ws" by simp
    then have "?ws ! apos \<in> set (split_words input) \<or> text (?ws ! apos) \<noteq> []"
      by (rule merge_acronym_nonempty)
    then show "text (?ws ! apos) \<noteq> []"
      using al split_words_loop_acronym_nonempty
      by (auto simp: split_words_def Let_def)
  qed
  then show ?thesis
    unfolding mark_acronyms_def Let_def
    by (rule mark_acronyms_loop_total [OF assms])
qed

section \<open>Scenarios\<close>

text \<open>
  C1: for \<open>epidermal growth factor receptor (EGFR) are found\<close> and the default
  \<open>max_intra_word_letters = 2\<close>, \<open>mark_acronyms\<close> returns exactly the map of
  \<open>EGFR\<close> to the one definition \<open>epidermal growth factor receptor\<close>, in whatever
  order the sets are iterated.
\<close>

theorem egfr_scenario:
  assumes "iteration_order ord"
  shows "mark_acronyms ord ''epidermal growth factor receptor (EGFR) are found'' 2
           = Inr [''EGFR'' \<mapsto> {''epidermal growth factor receptor''}]"
proof -
  let ?T = "''epidermal growth factor receptor (EGFR) are found''"
  let ?ws = "merge_complex_acronyms (split_words ?T)"
  have oi: "order_independent ?T 2" by code_simp
  have pos: "filter (\<lambda>p. acronym_like (?ws ! p)) [0..<length ?ws] = [10]" by code_simp
  have al: "acronym_like (?ws ! 10)" by code_simp
  have span: "definition_span list_order ?ws 2 10 = Inr (Some (0, 9))" by code_simp
  have key: "text (?ws ! 10) = ''EGFR''" by code_simp
  have defn: "definition_text ?ws (0, 9) = ''epidermal growth factor receptor''" by code_simp
  have "mark_acronyms ord ?T 2 = mark_acronyms list_order ?T 2"
    by (rule mark_acronyms_order_independent [OF assms oi])
  also have "\<dots> = mark_acronyms_loop list_order ?ws 2 [10] Map.empty"
    unfolding mark_acronyms_def Let_def
    by (subst mark_acronyms_loop_skip) (simp only: pos)
  also have "\<dots> = Inr [''EGFR'' \<mapsto> {''epidermal growth factor receptor''}]"
    using al span key defn by (simp add: add_definition_def)
  finally show ?thesis .
qed

theorem egfr_scenario_witness:
  "iteration_order list_order
   \<and> mark_acronyms list_order ''epidermal growth factor receptor (EGFR) are found'' 2
       = Inr [''EGFR'' \<mapsto> {''epidermal growth factor receptor''}]"
proof -
  have o: "iteration_order list_order" by (simp add: iteration_order_def list_order_def)
  show ?thesis using o egfr_scenario [OF o] by simp
qed

text \<open>
  C4: for \<open>poly (ADP-ribose) polymerase (PARP) inhibitors\<close> and the default
  \<open>max_intra_word_letters = 2\<close>, \<open>mark_acronyms\<close> returns exactly the map of
  \<open>PARP\<close> to the one definition \<open>poly (ADP-ribose) polymerase\<close>, in whatever
  order the sets are iterated; the full alignment path, whose span holds the balanced
  parenthetical \<open>(ADP-ribose)\<close>, passes the filter and its bracket-balance test.
\<close>

theorem parp_scenario:
  assumes "iteration_order ord"
  shows "mark_acronyms ord ''poly (ADP-ribose) polymerase (PARP) inhibitors'' 2
           = Inr [''PARP'' \<mapsto> {''poly (ADP-ribose) polymerase''}]
         \<and> path_kept (merge_complex_acronyms
                        (split_words ''poly (ADP-ribose) polymerase (PARP) inhibitors''))
              2 [Some 0, Some 4, Some 6, Some 10] = Inr True
         \<and> bracket_match ''poly (ADP-ribose) polymerase''"
proof -
  let ?T = "''poly (ADP-ribose) polymerase (PARP) inhibitors''"
  let ?ws = "merge_complex_acronyms (split_words ?T)"
  have oi: "order_independent ?T 2" by code_simp
  have pos: "filter (\<lambda>p. acronym_like (?ws ! p)) [0..<length ?ws] = [14]" by code_simp
  have al: "acronym_like (?ws ! 14)" by code_simp
  have span: "definition_span list_order ?ws 2 14 = Inr (Some (0, 13))" by code_simp
  have key: "text (?ws ! 14) = ''PARP''" by code_simp
  have defn: "definition_text ?ws (0, 13) = ''poly (ADP-ribose) polymerase''" by code_simp
  have kept: "path_kept ?ws 2 [Some 0, Some 4, Some 6, Some 10] = Inr True" by code_simp
  have bal: "bracket_match ''poly (ADP-ribose) polymerase''" by code_simp
  have "mark_acronyms ord ?T 2 = mark_acronyms list_order ?T 2"
    by (rule mark_acronyms_order_independent [OF assms oi])
  also have "\<dots> = mark_acronyms_loop list_order ?ws 2 [14] Map.empty"
    unfolding mark_acronyms_def Let_def
    by (subst mark_acronyms_loop_skip) (simp only: pos)
  also have "\<dots> = Inr [''PARP'' \<mapsto> {''poly (ADP-ribose) polymerase''}]"
    using al span key defn by (simp add: add_definition_def)
  finally show ?thesis using kept bal by simp
qed

theorem parp_scenario_witness:
  "iteration_order list_order
   \<and> mark_acronyms list_order ''poly (ADP-ribose) polymerase (PARP) inhibitors'' 2
       = Inr [''PARP'' \<mapsto> {''poly (ADP-ribose) polymerase''}]"
proof -
  have o: "iteration_order list_order" by (simp add: iteration_order_def list_order_def)
  show ?thesis using o parp_scenario [OF o] by simp
qed

end
